theory Spec2Isabelle
  imports Main
begin

section \<open>JavaScript strings and values\<close>

text \<open>
  Strings are lists of code units below 256. Numbers are integers (the model has no
  fractions, no NaN and no negative zero); \<open>String(n)\<close> is the plain decimal numeral, which
  is what JavaScript prints for integers of magnitude below \<open>10^21\<close>.
\<close>

definition startsWith :: "string \<Rightarrow> string \<Rightarrow> bool" where
  "startsWith s pre = (take (length pre) s = pre)"

fun str_includes :: "string \<Rightarrow> string \<Rightarrow> bool" where
  "str_includes [] sub = (sub = [])"
| "str_includes (c # cs) sub = (startsWith (c # cs) sub \<or> str_includes cs sub)"

definition is_ws :: "char \<Rightarrow> bool" where
  \<comment> \<open>the white space and line terminators that \<open>String.prototype.trim\<close> removes\<close>
  "is_ws c = (c \<in> set [CHR 0x09, CHR 0x0A, CHR 0x0B, CHR 0x0C, CHR 0x0D, CHR 0x20, CHR 0xA0])"

definition trim :: "string \<Rightarrow> string" where
  "trim s = rev (dropWhile is_ws (rev (dropWhile is_ws s)))"

fun split_on :: "char \<Rightarrow> string \<Rightarrow> string list" where
  \<comment> \<open>\<open>s.split(c)\<close> for a one-character separator\<close>
  "split_on c [] = [[]]"
| "split_on c (x # xs) =
     (if x = c then [] # split_on c xs
      else (case split_on c xs of [] \<Rightarrow> [[x]] | w # ws \<Rightarrow> (x # w) # ws))"

fun join :: "string \<Rightarrow> string list \<Rightarrow> string" where
  \<comment> \<open>\<open>xs.join(sep)\<close>\<close>
  "join sep [] = []"
| "join sep [x] = x"
| "join sep (x # y # ys) = x @ sep @ join sep (y # ys)"

definition digit_char :: "nat \<Rightarrow> char" where
  "digit_char d = ''0123456789'' ! d"

fun show_nat :: "nat \<Rightarrow> string" where
  "show_nat n = (if n < 10 then [digit_char n] else show_nat (n div 10) @ [digit_char (n mod 10)])"

declare show_nat.simps [simp del]

definition show_int :: "int \<Rightarrow> string" where
  "show_int i = (if i < 0 then CHR ''-'' # show_nat (nat (- i)) else show_nat (nat i))"

definition is_digit :: "char \<Rightarrow> bool" where
  "is_digit c = (c \<in> set ''0123456789'')"

definition digit_val :: "char \<Rightarrow> nat" where
  "digit_val c = of_char c - 48"

definition parse_nat :: "string \<Rightarrow> nat" where
  "parse_nat k = foldl (\<lambda>a c. 10 * a + digit_val c) 0 k"

definition is_array_index :: "string \<Rightarrow> bool" where
  \<comment> \<open>a canonical numeric string below \<open>2^32 - 1\<close>: the keys an array treats as indices\<close>
  "is_array_index k =
     (k \<noteq> [] \<and> list_all is_digit k \<and> (k = ''0'' \<or> hd k \<noteq> CHR ''0'') \<and> parse_nat k < 2 ^ 32 - 1)"

text \<open>
  The values a state tree holds: \<open>undefined\<close>, \<open>null\<close>, booleans, numbers, strings, plain
  objects and arrays. An object is the list of its own enumerable properties; an array
  is its \<open>length\<close> together with its own enumerable properties (the indices that are not
  holes, as decimal strings). Values are trees: there is no sharing and no cycle, so
  object identity coincides with equality of the trees. Members inherited from a
  prototype (\<open>toString\<close>, \<open>__proto__\<close>, ...) are not part of the model; functions, dates
  and other exotic objects are not state values here.
\<close>

datatype jsval =
    Undefined
  | Null
  | Bool bool
  | Num int
  | Str string
  | Obj "(string \<times> jsval) list"
  | Arr nat "(string \<times> jsval) list"

datatype js_error = RangeError | TypeError | ReferenceError string | Thrown string

text \<open>
  How a call can end other than by returning: a JavaScript exception, the recursion
  budget of the model running out, or a step whose JavaScript semantics the model does
  not give.
\<close>

datatype abort = Threw js_error | OutOfFuel | NotModelled

definition is_nullish :: "jsval \<Rightarrow> bool" where
  \<comment> \<open>\<open>v == null\<close>\<close>
  "is_nullish v = (v = Null \<or> v = Undefined)"

fun typeof_object :: "jsval \<Rightarrow> bool" where
  \<comment> \<open>\<open>typeof v === 'object'\<close>\<close>
  "typeof_object Null = True"
| "typeof_object (Obj kvs) = True"
| "typeof_object (Arr n kvs) = True"
| "typeof_object _ = False"

fun same_typeof :: "jsval \<Rightarrow> jsval \<Rightarrow> bool" where
  \<comment> \<open>\<open>typeof a === typeof b\<close>\<close>
  "same_typeof Undefined b = (b = Undefined)"
| "same_typeof (Bool x) b = (case b of Bool y \<Rightarrow> True | _ \<Rightarrow> False)"
| "same_typeof (Num x) b = (case b of Num y \<Rightarrow> True | _ \<Rightarrow> False)"
| "same_typeof (Str x) b = (case b of Str y \<Rightarrow> True | _ \<Rightarrow> False)"
| "same_typeof a b = typeof_object b"

fun isArray :: "jsval \<Rightarrow> bool" where
  "isArray (Arr n kvs) = True"
| "isArray _ = False"

fun ownProps :: "jsval \<Rightarrow> (string \<times> jsval) list" where
  \<comment> \<open>\<open>Object.entries(v)\<close> for an object or array\<close>
  "ownProps (Obj kvs) = kvs"
| "ownProps (Arr n kvs) = kvs"
| "ownProps _ = []"

fun mset :: "('k \<times> 'v) list \<Rightarrow> 'k \<Rightarrow> 'v \<Rightarrow> ('k \<times> 'v) list" where
  \<comment> \<open>\<open>Map.prototype.set\<close>, and property assignment on the list of own properties: an
      existing key keeps its place, a new key goes last\<close>
  "mset [] k v = [(k, v)]"
| "mset ((k', v') # kvs) k v = (if k' = k then (k, v) # kvs else (k', v') # mset kvs k v)"

definition mdelete :: "('k \<times> 'v) list \<Rightarrow> 'k \<Rightarrow> ('k \<times> 'v) list" where
  \<comment> \<open>\<open>Map.prototype.delete\<close>\<close>
  "mdelete m k = filter (\<lambda>kv. fst kv \<noteq> k) m"

definition sadd :: "'a list \<Rightarrow> 'a \<Rightarrow> 'a list" where
  \<comment> \<open>\<open>Set.prototype.add\<close>: sets iterate in insertion order\<close>
  "sadd xs x = (if x \<in> set xs then xs else xs @ [x])"

definition sdelete :: "'a list \<Rightarrow> 'a \<Rightarrow> 'a list" where
  \<comment> \<open>\<open>Set.prototype.delete\<close>\<close>
  "sdelete xs x = filter (\<lambda>y. y \<noteq> x) xs"

definition lookup :: "(string \<times> jsval) list \<Rightarrow> string \<Rightarrow> jsval" where
  "lookup kvs k = (case map_of kvs k of None \<Rightarrow> Undefined | Some v \<Rightarrow> v)"

fun getProp :: "jsval \<Rightarrow> string \<Rightarrow> jsval" where
  \<comment> \<open>\<open>current[part]\<close>; the callers test \<open>current == null\<close> first\<close>
  "getProp (Obj kvs) k = lookup kvs k"
| "getProp (Arr n kvs) k = (if k = ''length'' then Num (int n) else lookup kvs k)"
| "getProp (Str s) k =
     (if k = ''length'' then Num (int (length s))
      else if is_array_index k \<and> parse_nat k < length s then Str [s ! parse_nat k]
      else Undefined)"
| "getProp _ k = Undefined"

fun setProp :: "jsval \<Rightarrow> string \<Rightarrow> jsval \<Rightarrow> abort + jsval" where
  \<comment> \<open>\<open>current[part] = v\<close> in strict mode. Assigning an array's \<open>length\<close> truncates the
      array or throws a RangeError; only the assignment of a number is modelled (any
      other value goes through \<open>ToNumber\<close> first).\<close>
  "setProp (Obj kvs) k v = Inr (Obj (mset kvs k v))"
| "setProp (Arr n kvs) k v =
     (if k = ''length'' then
        (case v of
           Num m \<Rightarrow>
             if 0 \<le> m \<and> m < 2 ^ 32
             then Inr (Arr (nat m)
                    (filter (\<lambda>kv. \<not> (is_array_index (fst kv) \<and> nat m \<le> parse_nat (fst kv))) kvs))
             else Inl (Threw RangeError)
         | _ \<Rightarrow> Inl NotModelled)
      else Inr (Arr (if is_array_index k then max n (parse_nat k + 1) else n) (mset kvs k v)))"
| "setProp _ k v = Inl (Threw TypeError)"

fun replaceProp :: "jsval \<Rightarrow> string \<Rightarrow> jsval \<Rightarrow> jsval" where
  \<comment> \<open>the container after the object it holds under \<open>k\<close> was mutated in place\<close>
  "replaceProp (Obj kvs) k v = Obj (mset kvs k v)"
| "replaceProp (Arr n kvs) k v = Arr n (mset kvs k v)"
| "replaceProp c k v = c"

section \<open>Utility functions\<close>

definition isValidPath :: "string \<Rightarrow> bool" where
  \<comment> \<open>the argument is a string by its type\<close>
  "isValidPath path = (length (trim path) > 0 \<and> \<not> str_includes path ''..'')"

definition getPathParts :: "string \<Rightarrow> string list" where
  "getPathParts path = filter (\<lambda>w. w \<noteq> []) (split_on CHR ''.'' path)"

lemma ownProps_size: "(k, v) \<in> set (ownProps a) \<Longrightarrow> size v < size a"
proof (cases a)
  case (Obj kvs)
  assume "(k, v) \<in> set (ownProps a)"
  with Obj have "(k, v) \<in> set kvs" by simp
  then have "size v < Suc (size_list (size_prod (\<lambda>_. 0) size) kvs)"
    by (induction kvs) auto
  with Obj show ?thesis by simp
next
  case (Arr n kvs)
  assume "(k, v) \<in> set (ownProps a)"
  with Arr have "(k, v) \<in> set kvs" by simp
  then have "size v < Suc (size_list (size_prod (\<lambda>_. 0) size) kvs)"
    by (induction kvs) auto
  with Arr show ?thesis by simp
qed simp_all

function deepEquals :: "jsval \<Rightarrow> jsval \<Rightarrow> bool" where
  "deepEquals a b =
     (if a = b then True
      else if is_nullish a \<or> is_nullish b then False
      else if \<not> same_typeof a b then False
      else if typeof_object a then
        (if isArray a \<noteq> isArray b then False
         else if length (ownProps a) \<noteq> length (ownProps b) then False
         else list_all
           (\<lambda>(k, va). case map_of (ownProps b) k of
                         None \<Rightarrow> False
                       | Some vb \<Rightarrow> deepEquals va vb)
           (ownProps a))
      else False)"
  by pat_completeness auto
termination
  by (relation "measure (\<lambda>(a, b). size a)") (auto dest: ownProps_size)

declare deepEquals.simps [simp del]


section \<open>The state manager\<close>

text \<open>
  A subscriber callback is user code. The model gives a callback an identity and a body:
  the calls it makes on the store, in order (\<open>setState(path, v)\<close> with the default
  context, \<open>getState(path)\<close>), possibly ending in a \<open>throw\<close>. Callbacks of the model do
  not subscribe or unsubscribe, and what they do does not depend on their arguments.
\<close>

datatype action = CallSetState string jsval | CallGetState string | ThrowError string

datatype callback = Callback (cb_id: nat) (cb_body: "action list")

datatype subscription =
  Subscription (sub_id: nat) (sub_callback: callback) (hierarchical: bool)

text \<open>
  A middleware is a function of the object it is called with; it returns a value
  (\<open>undefined\<close> included) or throws. It does not mutate the state it is shown.
\<close>

record mw_call =
  mw_path :: string
  mw_oldValue :: jsval
  mw_newValue :: jsval
  mw_context :: jsval
  mw_state :: "(string \<times> jsval) list"

datatype mw_result = MwReturn jsval | MwThrow string

type_synonym middleware_fn = "mw_call \<Rightarrow> mw_result"

record update =
  upd_path :: string
  upd_value :: jsval
  upd_context :: jsval

datatype console_line = Warn string | Error string | Log string

datatype event =
    InternalCall nat string
    \<comment> \<open>the reactive callback with this identity ran, triggered for this path\<close>
  | ExternalCall nat jsval jsval string
    \<comment> \<open>the callback of this subscription ran with \<open>(newValue, oldValue, changedPath)\<close>\<close>

text \<open>
  The fields of \<open>StateManager\<close>, followed by the environment the class talks to: the
  pending timers (\<open>setTimeout\<close> handles that have not fired), the console, and the
  record of the callbacks that ran. \<open>currentlyUpdating\<close> is created on first use in the
  source; here it starts empty. A subscription object is identified by a fresh number.
\<close>

record store =
  state :: "(string \<times> jsval) list"
  middleware :: "middleware_fn list"
  subscribers :: "(string \<times> callback list) list"
  externalSubscribers :: "(string \<times> subscription list) list"
  currentTracking :: "string list option"
  isUpdating :: bool
  currentlyUpdating :: "string list"
  updateQueue :: "update list"
  batchTimeout :: "nat option"
  batchUpdateInProgress :: bool
  maxBatchSize :: int
  batchDelayMs :: int
  batchingEnabled :: bool
  timers :: "nat list"
  nextTimer :: nat
  nextSubscription :: nat
  console :: "console_line list"
  calls :: "event list"

definition newStateManager :: "(string \<times> jsval) list \<Rightarrow> middleware_fn list \<Rightarrow> store" where
  \<comment> \<open>the constructor\<close>
  "newStateManager initialState mws =
     \<lparr> state = initialState, middleware = mws, subscribers = [], externalSubscribers = [],
       currentTracking = None, isUpdating = False, currentlyUpdating = [],
       updateQueue = [], batchTimeout = None, batchUpdateInProgress = False,
       maxBatchSize = 50, batchDelayMs = 0, batchingEnabled = True,
       timers = [], nextTimer = 1, nextSubscription = 0, console = [], calls = [] \<rparr>"

definition warn :: "string \<Rightarrow> store \<Rightarrow> store" where
  "warn msg s = s\<lparr>console := console s @ [Warn msg]\<rparr>"

definition log_error :: "string \<Rightarrow> store \<Rightarrow> store" where
  "log_error msg s = s\<lparr>console := console s @ [Error msg]\<rparr>"

definition error_text :: "js_error \<Rightarrow> string" where
  "error_text e =
     (case e of
        RangeError \<Rightarrow> ''RangeError''
      | TypeError \<Rightarrow> ''TypeError''
      | ReferenceError m \<Rightarrow> ''ReferenceError: '' @ m
      | Thrown m \<Rightarrow> m)"

subsection \<open>getState\<close>

fun getIn :: "jsval \<Rightarrow> string list \<Rightarrow> jsval \<Rightarrow> jsval" where
  \<comment> \<open>the loop of \<open>getState\<close> over the parts, from \<open>current\<close>\<close>
  "getIn current [] defaultValue = current"
| "getIn current (part # parts) defaultValue =
     (if is_nullish current \<or> getProp current part = Undefined then defaultValue
      else getIn (getProp current part) parts defaultValue)"

definition getState :: "store \<Rightarrow> string \<Rightarrow> jsval \<Rightarrow> jsval \<times> store" where
  \<comment> \<open>\<open>getState(path, defaultValue)\<close>; \<open>getState(path)\<close> is \<open>getState s path Null\<close>\<close>
  "getState s path defaultValue =
     (if \<not> isValidPath path then (defaultValue, warn (''Invalid state path: '' @ path) s)
      else
        let s1 = (case currentTracking s of
                    None \<Rightarrow> s
                  | Some deps \<Rightarrow> s\<lparr>currentTracking := Some (sadd deps path)\<rparr>)
        in (getIn (Obj (state s1)) (getPathParts path) defaultValue, s1))"

subsection \<open>Writing through a path\<close>

fun writePath :: "jsval \<Rightarrow> string list \<Rightarrow> jsval \<Rightarrow> abort + jsval" where
  \<comment> \<open>the loop of \<open>_setStateImmediate\<close> that walks to the parent, creating objects, and the
      final assignment \<open>current[parts[parts.length - 1]] = finalValue\<close>. With no parts the
      key is \<open>parts[-1]\<close>, that is \<open>undefined\<close>, which names the property \<open>"undefined"\<close>.\<close>
  "writePath current [] v = setProp current ''undefined'' v"
| "writePath current [part] v = setProp current part v"
| "writePath current (part # parts) v =
     (if is_nullish (getProp current part) \<or> \<not> typeof_object (getProp current part) then
        (case setProp current part (Obj []) of
           Inl e \<Rightarrow> Inl e
         | Inr current' \<Rightarrow>
             (case writePath (Obj []) parts v of
                Inl e \<Rightarrow> Inl e
              | Inr child \<Rightarrow> Inr (replaceProp current' part child)))
      else
        (case writePath (getProp current part) parts v of
           Inl e \<Rightarrow> Inl e
         | Inr child \<Rightarrow> Inr (replaceProp current part child)))"

fun runMiddleware ::
  "middleware_fn list \<Rightarrow> string \<Rightarrow> jsval \<Rightarrow> jsval \<Rightarrow> (string \<times> jsval) list \<Rightarrow>
   jsval \<times> console_line list \<Rightarrow> jsval \<times> console_line list" where
  \<comment> \<open>the loop over \<open>this.middleware\<close>: the running \<open>finalValue\<close> and the lines logged\<close>
  "runMiddleware [] path oldValue ctx st (finalValue, out) = (finalValue, out)"
| "runMiddleware (mw # mws) path oldValue ctx st (finalValue, out) =
     (case mw \<lparr> mw_path = path, mw_oldValue = oldValue, mw_newValue = finalValue,
                mw_context = ctx, mw_state = st \<rparr> of
        MwReturn r \<Rightarrow>
          runMiddleware mws path oldValue ctx st
            (if r \<noteq> Undefined then r else finalValue, out)
      | MwThrow m \<Rightarrow>
          runMiddleware mws path oldValue ctx st
            (finalValue, out @ [Error (''Middleware error: '' @ m)]))"


subsection \<open>Subscriptions\<close>

definition subscribe :: "store \<Rightarrow> string \<Rightarrow> callback \<Rightarrow> bool \<Rightarrow> subscription \<times> store" where
  \<comment> \<open>\<open>subscribe(path, callback, hierarchical)\<close>: the new subscription object stands for
      the unsubscribe function that the source returns\<close>
  "subscribe s path cb hier =
     (let subscription = Subscription (nextSubscription s) cb hier;
          subs = (case map_of (externalSubscribers s) path of None \<Rightarrow> [] | Some xs \<Rightarrow> xs)
      in (subscription,
          s\<lparr>externalSubscribers := mset (externalSubscribers s) path (sadd subs subscription),
            nextSubscription := nextSubscription s + 1\<rparr>))"

definition unsubscribe :: "store \<Rightarrow> string \<Rightarrow> subscription \<Rightarrow> store" where
  \<comment> \<open>calling the function that \<open>subscribe(path, ...)\<close> returned\<close>
  "unsubscribe s path subscription =
     (case map_of (externalSubscribers s) path of
        None \<Rightarrow> s
      | Some subs \<Rightarrow>
          if sdelete subs subscription = []
          then s\<lparr>externalSubscribers := mdelete (externalSubscribers s) path\<rparr>
          else s\<lparr>externalSubscribers :=
                  mset (externalSubscribers s) path (sdelete subs subscription)\<rparr>)"

definition subscribeExact :: "store \<Rightarrow> string \<Rightarrow> callback \<Rightarrow> subscription \<times> store" where
  "subscribeExact s path cb = subscribe s path cb False"

definition subscribeInternal :: "store \<Rightarrow> string \<Rightarrow> callback \<Rightarrow> store" where
  "subscribeInternal s path cb =
     (let subs = (case map_of (subscribers s) path of None \<Rightarrow> [] | Some cbs \<Rightarrow> cbs)
      in s\<lparr>subscribers := mset (subscribers s) path (sadd subs cb)\<rparr>)"

definition unsubscribeInternal :: "store \<Rightarrow> string \<Rightarrow> callback \<Rightarrow> store" where
  \<comment> \<open>calling the function that \<open>subscribeInternal(path, callback)\<close> returned\<close>
  "unsubscribeInternal s path cb =
     (case map_of (subscribers s) path of
        None \<Rightarrow> s
      | Some subs \<Rightarrow>
          if sdelete subs cb = []
          then s\<lparr>subscribers := mdelete (subscribers s) path\<rparr>
          else s\<lparr>subscribers := mset (subscribers s) path (sdelete subs cb)\<rparr>)"

subsection \<open>Notification\<close>

text \<open>
  \<open>setState\<close> notifies subscribers, whose callbacks may call \<open>setState\<close> again. The
  functions below take that inner \<open>setState\<close> as the parameter \<open>reenter\<close>; the knot is tied
  by \<open>setState_fuel\<close>.
\<close>

type_synonym setter = "store \<Rightarrow> string \<Rightarrow> jsval \<Rightarrow> jsval \<Rightarrow> store \<times> abort option"

fun run_actions :: "setter \<Rightarrow> store \<Rightarrow> action list \<Rightarrow> store \<times> abort option" where
  \<comment> \<open>running the body of a callback\<close>
  "run_actions reenter s [] = (s, None)"
| "run_actions reenter s (CallSetState path v # rest) =
     (case reenter s path v (Obj []) of
        (s', None) \<Rightarrow> run_actions reenter s' rest
      | (s', Some a) \<Rightarrow> (s', Some a))"
| "run_actions reenter s (CallGetState path # rest) =
     run_actions reenter (snd (getState s path Null)) rest"
| "run_actions reenter s (ThrowError m # rest) = (s, Some (Threw (Thrown m)))"

definition resubscribe :: "callback \<Rightarrow> store \<Rightarrow> string \<Rightarrow> store" where
  \<comment> \<open>the body of \<open>newTracking.forEach\<close> in \<open>_triggerPathSubscribers\<close>\<close>
  "resubscribe cb s newPath =
     (case map_of (subscribers s) newPath of
        None \<Rightarrow> subscribeInternal s newPath cb
      | Some existingSubs \<Rightarrow>
          if cb \<notin> set existingSubs then subscribeInternal s newPath cb else s)"

fun trigger_each :: "setter \<Rightarrow> string \<Rightarrow> store \<Rightarrow> callback list \<Rightarrow> store \<times> abort option" where
  \<comment> \<open>\<open>subscribersCopy.forEach\<close> in \<open>_triggerPathSubscribers\<close>. The \<open>catch\<close> block logs the
      error and then reads \<open>oldTracking\<close>, a \<open>const\<close> of the \<open>try\<close> block that is not in scope
      there: the read throws a ReferenceError, which leaves the method.\<close>
  "trigger_each reenter path s [] = (s, None)"
| "trigger_each reenter path s (cb # cbs) =
     (let oldTracking = currentTracking s;
          s1 = s\<lparr>currentTracking := Some [],
                 calls := calls s @ [InternalCall (cb_id cb) path]\<rparr>
      in case run_actions reenter s1 (cb_body cb) of
           (s2, None) \<Rightarrow>
             let newTracking = (case currentTracking s2 of None \<Rightarrow> [] | Some deps \<Rightarrow> deps);
                 s3 = s2\<lparr>currentTracking := oldTracking\<rparr>
             in trigger_each reenter path (foldl (resubscribe cb) s3 newTracking) cbs
         | (s2, Some (Threw e)) \<Rightarrow>
             (log_error (''Subscriber error: '' @ error_text e) s2,
              Some (Threw (ReferenceError ''oldTracking is not defined'')))
         | (s2, Some a) \<Rightarrow> (s2, Some a))"

definition triggerPathSubscribers :: "setter \<Rightarrow> store \<Rightarrow> string \<Rightarrow> store \<times> abort option" where
  "triggerPathSubscribers reenter s path =
     (case map_of (subscribers s) path of
        None \<Rightarrow> (s, None)
      | Some subs \<Rightarrow> trigger_each reenter path s subs)"

fun trigger_all :: "setter \<Rightarrow> store \<Rightarrow> string list \<Rightarrow> store \<times> abort option" where
  \<comment> \<open>\<open>_triggerPathSubscribers\<close> for each path in turn\<close>
  "trigger_all reenter s [] = (s, None)"
| "trigger_all reenter s (path # paths) =
     (case triggerPathSubscribers reenter s path of
        (s', None) \<Rightarrow> trigger_all reenter s' paths
      | (s', Some a) \<Rightarrow> (s', Some a))"

definition parentPaths :: "string \<Rightarrow> string list" where
  \<comment> \<open>\<open>parts.slice(0, i).join('.')\<close> for \<open>i\<close> from \<open>parts.length - 1\<close> down to 1\<close>
  "parentPaths path =
     (let parts = getPathParts path
      in map (\<lambda>i. join ''.'' (take i parts)) (rev [1..<length parts]))"

definition allSubscriberPaths :: "store \<Rightarrow> string list" where
  \<comment> \<open>\<open>new Set([...this.subscribers.keys(), ...this.externalSubscribers.keys()])\<close>\<close>
  "allSubscriberPaths s =
     foldl sadd [] (map fst (subscribers s) @ map fst (externalSubscribers s))"

definition descendantPaths :: "store \<Rightarrow> string \<Rightarrow> string list" where
  \<comment> \<open>the paths for which the last loop of \<open>_notifySubscribers\<close> triggers\<close>
  "descendantPaths s path =
     (let prefix = (if path \<noteq> [] then path @ ''.'' else [])
      in filter (\<lambda>subscriberPath. startsWith subscriberPath prefix \<and> subscriberPath \<noteq> path)
           (allSubscriberPaths s))"

definition notifySubscribers ::
  "setter \<Rightarrow> store \<Rightarrow> string \<Rightarrow> jsval \<Rightarrow> jsval \<Rightarrow> store \<times> abort option" where
  "notifySubscribers reenter s path newValue oldValue =
     (case triggerPathSubscribers reenter s path of
        (s1, Some a) \<Rightarrow> (s1, Some a)
      | (s1, None) \<Rightarrow>
          (case trigger_all reenter s1 (parentPaths path) of
             (s2, Some a) \<Rightarrow> (s2, Some a)
           | (s2, None) \<Rightarrow> trigger_all reenter s2 (descendantPaths s2 path)))"

definition shouldNotify :: "subscription \<Rightarrow> string \<Rightarrow> string \<Rightarrow> bool" where
  "shouldNotify subscription subscribedPath changedPath =
     (if hierarchical subscription
      then changedPath = subscribedPath \<or> startsWith changedPath (subscribedPath @ ''.'')
      else changedPath = subscribedPath)"

fun notify_each ::
  "setter \<Rightarrow> string \<Rightarrow> jsval \<Rightarrow> jsval \<Rightarrow> store \<Rightarrow> (string \<times> subscription) list \<Rightarrow>
   store \<times> abort option" where
  \<comment> \<open>the two nested \<open>forEach\<close> of \<open>_notifyExternalSubscribers\<close>, over the subscriptions
      paired with their paths\<close>
  "notify_each reenter changedPath newValue oldValue s [] = (s, None)"
| "notify_each reenter changedPath newValue oldValue s ((subscribedPath, subscription) # rest) =
     (if shouldNotify subscription subscribedPath changedPath then
        (let s1 = s\<lparr>calls := calls s @
                     [ExternalCall (sub_id subscription) newValue oldValue changedPath]\<rparr>
         in case run_actions reenter s1 (cb_body (sub_callback subscription)) of
              (s2, None) \<Rightarrow> notify_each reenter changedPath newValue oldValue s2 rest
            | (s2, Some (Threw e)) \<Rightarrow>
                notify_each reenter changedPath newValue oldValue
                  (log_error (''External subscriber error: '' @ error_text e) s2) rest
            | (s2, Some a) \<Rightarrow> (s2, Some a))
      else notify_each reenter changedPath newValue oldValue s rest)"

definition subscriptionsInOrder :: "store \<Rightarrow> (string \<times> subscription) list" where
  \<comment> \<open>every subscription with its path, in the order the two \<open>forEach\<close> visit them\<close>
  "subscriptionsInOrder s =
     concat (map (\<lambda>(subscribedPath, subs). map (Pair subscribedPath) subs)
                 (externalSubscribers s))"

definition notifyExternalSubscribers ::
  "setter \<Rightarrow> store \<Rightarrow> string \<Rightarrow> jsval \<Rightarrow> jsval \<Rightarrow> store \<times> abort option" where
  "notifyExternalSubscribers reenter s changedPath newValue oldValue =
     notify_each reenter changedPath newValue oldValue s (subscriptionsInOrder s)"

subsection \<open>setState\<close>

definition setStateImmediate ::
  "setter \<Rightarrow> store \<Rightarrow> string \<Rightarrow> jsval \<Rightarrow> jsval \<Rightarrow> store \<times> abort option" where
  "setStateImmediate reenter s path v ctx =
     (let (oldValue, s1) = getState s path Null;
          (finalValue, out) =
             runMiddleware (middleware s1) path oldValue ctx (state s1) (v, []);
          s2 = s1\<lparr>console := console s1 @ out\<rparr>
      in if deepEquals oldValue finalValue then (s2, None)
         else
           case writePath (Obj (state s2)) (getPathParts path) finalValue of
             Inl a \<Rightarrow> (s2, Some a)
           | Inr root \<Rightarrow>
               let s3 = s2\<lparr>state := ownProps root\<rparr> in
               if \<not> isUpdating s3 then
                 (let s4 = s3\<lparr>isUpdating := True,
                              currentlyUpdating := sadd (currentlyUpdating s3) path\<rparr>
                  in case notifySubscribers reenter s4 path finalValue oldValue of
                       (s5, Some a) \<Rightarrow> (s5, Some a)
                     | (s5, None) \<Rightarrow>
                         (case notifyExternalSubscribers reenter s5 path finalValue oldValue of
                            (s6, Some a) \<Rightarrow> (s6, Some a)
                          | (s6, None) \<Rightarrow>
                              (s6\<lparr>currentlyUpdating := sdelete (currentlyUpdating s6) path,
                                  isUpdating := False\<rparr>, None)))
               else (s3, None))"

definition setTimeout :: "store \<Rightarrow> nat \<times> store" where
  \<comment> \<open>a new pending timer whose callback is \<open>_processBatchedUpdates\<close>; its handle\<close>
  "setTimeout s = (nextTimer s, s\<lparr>timers := timers s @ [nextTimer s], nextTimer := nextTimer s + 1\<rparr>)"

definition clearTimeout :: "store \<Rightarrow> nat \<Rightarrow> store" where
  "clearTimeout s t = s\<lparr>timers := sdelete (timers s) t\<rparr>"

fun apply_updates :: "setter \<Rightarrow> store \<Rightarrow> update list \<Rightarrow> store \<times> abort option" where
  \<comment> \<open>\<open>pathGroups.forEach\<close> in \<open>_processBatchedUpdates\<close>\<close>
  "apply_updates reenter s [] = (s, None)"
| "apply_updates reenter s (u # us) =
     (case setStateImmediate reenter s (upd_path u) (upd_value u) (upd_context u) of
        (s', None) \<Rightarrow> apply_updates reenter s' us
      | (s', Some a) \<Rightarrow> (s', Some a))"

definition pathGroups :: "update list \<Rightarrow> (string \<times> update) list" where
  \<comment> \<open>\<open>currentBatch.forEach(update => pathGroups.set(update.path, update))\<close>\<close>
  "pathGroups currentBatch = foldl (\<lambda>m u. mset m (upd_path u) u) [] currentBatch"

definition processBatchedUpdates :: "setter \<Rightarrow> store \<Rightarrow> store \<times> abort option" where
  "processBatchedUpdates reenter s =
     (if batchUpdateInProgress s \<or> updateQueue s = [] then (s, None)
      else
        let s1 = s\<lparr>batchUpdateInProgress := True\<rparr>;
            s2 = (case batchTimeout s1 of
                    None \<Rightarrow> s1
                  | Some t \<Rightarrow> (clearTimeout s1 t)\<lparr>batchTimeout := None\<rparr>);
            batchSize = min (maxBatchSize s2) (int (length (updateQueue s2)));
            currentBatch = take (nat batchSize) (updateQueue s2);
            s3 = s2\<lparr>updateQueue := drop (nat batchSize) (updateQueue s2)\<rparr>;
            groups = pathGroups currentBatch;
            (s4, r) = apply_updates reenter s3 (map snd groups);
            (s5, r') =
               (case r of
                  None \<Rightarrow>
                    (s4\<lparr>console := console s4 @
                        [Log (''Batched '' @ show_nat (length currentBatch) @ '' updates into ''
                              @ show_nat (length groups) @ '' unique state changes'')]\<rparr>, None)
                | Some (Threw e) \<Rightarrow>
                    (log_error (''Error processing batched updates: '' @ error_text e) s4, None)
                | Some a \<Rightarrow> (s4, Some a));
            s6 = s5\<lparr>batchUpdateInProgress := False\<rparr>
        in (if updateQueue s6 \<noteq> [] then snd (setTimeout s6) else s6, r'))"

definition queueUpdate ::
  "setter \<Rightarrow> store \<Rightarrow> string \<Rightarrow> jsval \<Rightarrow> jsval \<Rightarrow> store \<times> abort option" where
  \<comment> \<open>the \<open>timestamp\<close> of the update record is read nowhere and is left out\<close>
  "queueUpdate reenter s path v ctx =
     (let s1 = s\<lparr>updateQueue := updateQueue s @
                  [\<lparr> upd_path = path, upd_value = v, upd_context = ctx \<rparr>]\<rparr>
      in if int (length (updateQueue s1)) > maxBatchSize s1 * 2 then
           processBatchedUpdates reenter
             (warn ''Update queue is getting large, processing immediately'' s1)
         else if batchTimeout s1 = None then
           (let (t, s2) = setTimeout s1 in (s2\<lparr>batchTimeout := Some t\<rparr>, None))
         else (s1, None))"

definition hasCircularUpdate :: "store \<Rightarrow> string \<Rightarrow> bool \<times> store" where
  "hasCircularUpdate s path =
     (if path \<in> set (currentlyUpdating s)
      then (True, warn (''Circular dependency detected for path: '' @ path) s)
      else (False, s))"

definition setState_body ::
  "setter \<Rightarrow> store \<Rightarrow> string \<Rightarrow> jsval \<Rightarrow> jsval \<Rightarrow> store \<times> abort option" where
  \<comment> \<open>the body of \<open>setState(path, value, context)\<close>\<close>
  "setState_body reenter s path v ctx =
     (if \<not> isValidPath path then (warn (''Invalid state path: '' @ path) s, None)
      else
        case hasCircularUpdate s path of
          (True, s1) \<Rightarrow> (s1, None)
        | (False, s1) \<Rightarrow>
            if batchingEnabled s1 \<and> batchDelayMs s1 > 0
            then queueUpdate reenter s1 path v ctx
            else setStateImmediate reenter s1 path v ctx)"

fun setState_fuel :: "nat \<Rightarrow> setter" where
  \<comment> \<open>\<open>setState\<close> with a bound on how deep calls of \<open>setState\<close> from inside callbacks nest\<close>
  "setState_fuel 0 s path v ctx = (s, Some OutOfFuel)"
| "setState_fuel (Suc n) s path v ctx = setState_body (setState_fuel n) s path v ctx"

definition setState :: setter where
  \<comment> \<open>two levels are all that is ever used: see \<open>setState_fuel_enough\<close>\<close>
  "setState = setState_fuel 2"

definition fireTimer :: "store \<Rightarrow> nat \<Rightarrow> store \<times> abort option" where
  \<comment> \<open>the pending timer \<open>t\<close> fires: its callback runs \<open>_processBatchedUpdates\<close>; one level
      is all that is ever used: see \<open>fireTimer_fuel_enough\<close>\<close>
  "fireTimer s t =
     (if t \<in> set (timers s)
      then processBatchedUpdates (setState_fuel 1) (s\<lparr>timers := sdelete (timers s) t\<rparr>)
      else (s, None))"


section \<open>What a notification pass does\<close>

text \<open>
  The vocabulary of the statements below. \<open>oldValueAt\<close> and \<open>finalValueFor\<close> are the
  \<open>oldValue\<close> and the \<open>finalValue\<close> of \<open>_setStateImmediate\<close>: what \<open>getState(path)\<close> returns
  before the write, and the value after the middleware. \<open>external_events\<close> lists the calls
  that \<open>_notifyExternalSubscribers\<close> makes when every callback returns or throws.
  \<open>grouped paths qs\<close> says that \<open>qs\<close> visits the paths in the order of \<open>paths\<close>, each any
  number of times in a row. \<open>quiet f\<close> says that \<open>f\<close>, called while a pass is running, calls
  no callback and changes no subscription.
\<close>

definition nested_frame :: "store \<Rightarrow> store \<Rightarrow> bool" where
  "nested_frame s s' =
     (isUpdating s' = isUpdating s \<and> calls s' = calls s \<and> subscribers s' = subscribers s \<and>
      externalSubscribers s' = externalSubscribers s \<and>
      currentlyUpdating s' = currentlyUpdating s \<and> middleware s' = middleware s \<and>
      batchingEnabled s' = batchingEnabled s \<and> batchDelayMs s' = batchDelayMs s)"

definition quiet :: "setter \<Rightarrow> bool" where
  "quiet f = (\<forall>s p v c s' r. isUpdating s \<longrightarrow> f s p v c = (s', r) \<longrightarrow>
                nested_frame s s' \<and> r \<noteq> Some OutOfFuel)"

fun is_internal :: "event \<Rightarrow> bool" where
  "is_internal (InternalCall i q) = True"
| "is_internal (ExternalCall i nv ov cp) = False"

fun event_path :: "event \<Rightarrow> string" where
  "event_path (InternalCall i q) = q"
| "event_path (ExternalCall i nv ov cp) = cp"

definition grouped :: "string list \<Rightarrow> string list \<Rightarrow> bool" where
  "grouped paths qs =
     (\<exists>ns. length ns = length paths \<and> qs = concat (map2 replicate ns paths))"

definition pass_frame :: "store \<Rightarrow> store \<Rightarrow> bool" where
  "pass_frame s s' =
     (isUpdating s' = isUpdating s \<and> externalSubscribers s' = externalSubscribers s \<and>
      currentlyUpdating s' = currentlyUpdating s \<and> middleware s' = middleware s \<and>
      batchingEnabled s' = batchingEnabled s \<and> batchDelayMs s' = batchDelayMs s)"

definition internal_at :: "string \<Rightarrow> event list \<Rightarrow> bool" where
  "internal_at q es = list_all (\<lambda>e. is_internal e \<and> event_path e = q) es"

definition external_events ::
  "string \<Rightarrow> jsval \<Rightarrow> jsval \<Rightarrow> (string \<times> subscription) list \<Rightarrow> event list" where
  "external_events changedPath newValue oldValue subs =
     map (\<lambda>(subscribedPath, x). ExternalCall (sub_id x) newValue oldValue changedPath)
       (filter (\<lambda>(subscribedPath, x). shouldNotify x subscribedPath changedPath) subs)"

definition oldValueAt :: "store \<Rightarrow> string \<Rightarrow> jsval" where
  "oldValueAt s path = fst (getState s path Null)"

definition finalValueFor :: "store \<Rightarrow> string \<Rightarrow> jsval \<Rightarrow> jsval \<Rightarrow> jsval" where
  "finalValueFor s path v ctx =
     fst (runMiddleware (middleware s) path (oldValueAt s path) ctx (state s) (v, []))"

definition below :: "string \<Rightarrow> event list \<Rightarrow> bool" where
  "below p es =
     list_all (\<lambda>e. is_internal e \<and> startsWith (event_path e) (p @ ''.'') \<and> event_path e \<noteq> p) es"

section \<open>Calls of setState from inside a notification pass\<close>

lemma nested_frame_refl [simp]: "nested_frame s s"
  by (simp add: nested_frame_def)

lemma nested_frame_trans: "nested_frame s s' \<Longrightarrow> nested_frame s' s'' \<Longrightarrow> nested_frame s s''"
  by (simp add: nested_frame_def)

lemma nested_frame_warn [simp]: "nested_frame s (warn m s)"
  by (simp add: nested_frame_def warn_def)

lemma nested_frame_log_error [simp]: "nested_frame s (log_error m s)"
  by (simp add: nested_frame_def log_error_def)

lemma nested_frame_getState [simp]: "nested_frame s (snd (getState s p d))"
  by (simp add: nested_frame_def getState_def warn_def Let_def split: option.splits)

lemma setProp_fuel [simp]: "setProp c k v \<noteq> Inl OutOfFuel"
  by (cases c) (auto split: jsval.splits)

lemma writePath_fuel [simp]: "writePath c ps v \<noteq> Inl OutOfFuel"
  by (induction c ps v rule: writePath.induct) (auto split: sum.splits)

lemma setStateImmediate_nested:
  assumes "isUpdating s" and "setStateImmediate f s p v c = (s', r)"
  shows "nested_frame s s' \<and> r \<noteq> Some OutOfFuel"
proof -
  obtain old s1 where g: "getState s p Null = (old, s1)" by (cases "getState s p Null")
  then have f1: "nested_frame s s1" using nested_frame_getState [of s p Null] by simp
  obtain fin out where m: "runMiddleware (middleware s1) p old c (state s1) (v, []) = (fin, out)"
    by (cases "runMiddleware (middleware s1) p old c (state s1) (v, [])")
  have u: "isUpdating s1" using f1 assms(1) by (simp add: nested_frame_def)
  show ?thesis
    using assms(2) f1 u
    by (auto simp: setStateImmediate_def g m nested_frame_def Let_def
        split: if_splits sum.splits)
qed

lemma apply_updates_nested:
  "isUpdating s \<Longrightarrow> apply_updates f s us = (s', r) \<Longrightarrow> nested_frame s s' \<and> r \<noteq> Some OutOfFuel"
proof (induction us arbitrary: s)
  case Nil
  then show ?case by simp
next
  case (Cons u us)
  obtain s1 r1 where st: "setStateImmediate f s (upd_path u) (upd_value u) (upd_context u) = (s1, r1)"
    by (cases "setStateImmediate f s (upd_path u) (upd_value u) (upd_context u)")
  from setStateImmediate_nested [OF Cons.prems(1) st]
  have f1: "nested_frame s s1" and r1: "r1 \<noteq> Some OutOfFuel" by simp_all
  show ?case
  proof (cases r1)
    case None
    with Cons.prems st have rest: "apply_updates f s1 us = (s', r)" by simp
    have "isUpdating s1" using f1 Cons.prems(1) by (simp add: nested_frame_def)
    from Cons.IH [OF this rest] f1 show ?thesis by (auto intro: nested_frame_trans)
  next
    case (Some a)
    with Cons.prems st r1 f1 show ?thesis by auto
  qed
qed

lemma processBatchedUpdates_nested:
  assumes "isUpdating s" and "processBatchedUpdates f s = (s', r)"
  shows "nested_frame s s' \<and> r \<noteq> Some OutOfFuel"
proof (cases "batchUpdateInProgress s \<or> updateQueue s = []")
  case True
  with assms show ?thesis by (auto simp: processBatchedUpdates_def)
next
  case False
  define s2 where "s2 = (case batchTimeout (s\<lparr>batchUpdateInProgress := True\<rparr>) of
                    None \<Rightarrow> s\<lparr>batchUpdateInProgress := True\<rparr>
                  | Some t \<Rightarrow> (clearTimeout (s\<lparr>batchUpdateInProgress := True\<rparr>) t)\<lparr>batchTimeout := None\<rparr>)"
  define n where "n = nat (min (maxBatchSize s2) (int (length (updateQueue s2))))"
  define s3 where "s3 = s2\<lparr>updateQueue := drop n (updateQueue s2)\<rparr>"
  define us where "us = map snd (pathGroups (take n (updateQueue s2)))"
  have f3: "nested_frame s s3"
    by (auto simp: s3_def s2_def nested_frame_def clearTimeout_def split: option.splits)
  then have u3: "isUpdating s3" using assms(1) by (simp add: nested_frame_def)
  obtain s4 r4 where a: "apply_updates f s3 us = (s4, r4)" by (cases "apply_updates f s3 us")
  from apply_updates_nested [OF u3 a] have f4: "nested_frame s3 s4" and r4: "r4 \<noteq> Some OutOfFuel"
    by simp_all
  have f34: "nested_frame s s4" using f3 f4 by (rule nested_frame_trans)
  from assms(2) False a show ?thesis
    using f34 r4
    unfolding processBatchedUpdates_def Let_def s2_def [symmetric] n_def [symmetric]
      s3_def [symmetric] us_def [symmetric]
    by (auto simp: nested_frame_def log_error_def setTimeout_def
        split: option.splits abort.splits if_splits)
qed

lemma queueUpdate_nested:
  assumes "isUpdating s" and "queueUpdate f s p v c = (s', r)"
  shows "nested_frame s s' \<and> r \<noteq> Some OutOfFuel"
proof -
  define s1 where "s1 = s\<lparr>updateQueue := updateQueue s @
                  [\<lparr> upd_path = p, upd_value = v, upd_context = c \<rparr>]\<rparr>"
  have f1: "nested_frame s s1" by (simp add: s1_def nested_frame_def)
  show ?thesis
  proof (cases "int (length (updateQueue s1)) > maxBatchSize s1 * 2")
    case True
    define s2 where "s2 = warn ''Update queue is getting large, processing immediately'' s1"
    have f2: "nested_frame s s2" using f1 by (simp add: s2_def nested_frame_def warn_def)
    then have u2: "isUpdating s2" using assms(1) by (simp add: nested_frame_def)
    from assms(2) True have "processBatchedUpdates f s2 = (s', r)"
      unfolding queueUpdate_def Let_def s1_def [symmetric] s2_def by simp
    from processBatchedUpdates_nested [OF u2 this] f2 show ?thesis
      by (auto intro: nested_frame_trans)
  next
    case False
    with assms(2) f1 show ?thesis
      unfolding queueUpdate_def Let_def s1_def [symmetric]
      by (auto simp: nested_frame_def setTimeout_def split: if_splits)
  qed
qed

lemma setState_body_quiet: "quiet (setState_body g)"
  unfolding quiet_def
proof (intro allI impI)
  fix s p v c s' r
  assume u: "isUpdating s" and b: "setState_body g s p v c = (s', r)"
  show "nested_frame s s' \<and> r \<noteq> Some OutOfFuel"
  proof (cases "isValidPath p")
    case False
    with b show ?thesis by (auto simp: setState_body_def)
  next
    case True
    show ?thesis
    proof (cases "p \<in> set (currentlyUpdating s)")
      case True
      with b \<open>isValidPath p\<close> show ?thesis
        by (auto simp: setState_body_def hasCircularUpdate_def)
    next
      case False
      show ?thesis
      proof (cases "batchingEnabled s \<and> batchDelayMs s > 0")
        case True
        with b \<open>isValidPath p\<close> False have "queueUpdate g s p v c = (s', r)"
          by (simp add: setState_body_def hasCircularUpdate_def)
        from queueUpdate_nested [OF u this] show ?thesis .
      next
        case nb: False
        with b \<open>isValidPath p\<close> False have "setStateImmediate g s p v c = (s', r)"
          by (auto simp add: setState_body_def hasCircularUpdate_def)
        from setStateImmediate_nested [OF u this] show ?thesis .
      qed
    qed
  qed
qed

lemma setState_fuel_quiet: "quiet (setState_fuel (Suc n))"
proof -
  have "setState_fuel (Suc n) = setState_body (setState_fuel n)" by (intro ext) simp
  then show ?thesis by (simp add: setState_body_quiet)
qed

lemma run_actions_nested:
  assumes "quiet f"
  shows "isUpdating s \<Longrightarrow> run_actions f s body = (s', r) \<Longrightarrow>
         nested_frame s s' \<and> r \<noteq> Some OutOfFuel"
proof (induction body arbitrary: s)
  case Nil
  then show ?case by simp
next
  case (Cons a body)
  show ?case
  proof (cases a)
    case (CallSetState p v)
    obtain s1 r1 where st: "f s p v (Obj []) = (s1, r1)" by (cases "f s p v (Obj [])")
    with assms Cons.prems(1) have f1: "nested_frame s s1" and r1: "r1 \<noteq> Some OutOfFuel"
      by (auto simp: quiet_def)
    show ?thesis
    proof (cases r1)
      case None
      with Cons.prems CallSetState st have rest: "run_actions f s1 body = (s', r)" by simp
      have "isUpdating s1" using f1 Cons.prems(1) by (simp add: nested_frame_def)
      from Cons.IH [OF this rest] f1 show ?thesis by (auto intro: nested_frame_trans)
    next
      case (Some b)
      with Cons.prems CallSetState st r1 f1 show ?thesis by auto
    qed
  next
    case (CallGetState p)
    with Cons.prems have rest: "run_actions f (snd (getState s p Null)) body = (s', r)" by simp
    have f1: "nested_frame s (snd (getState s p Null))" by simp
    then have "isUpdating (snd (getState s p Null))" using Cons.prems(1)
      by (simp add: nested_frame_def)
    from Cons.IH [OF this rest] show ?thesis
      using nested_frame_trans [OF nested_frame_getState] by blast
  next
    case (ThrowError m)
    with Cons.prems show ?thesis by auto
  qed
qed

lemma pass_frame_refl [simp]: "pass_frame s s"
  by (simp add: pass_frame_def)

lemma pass_frame_trans: "pass_frame s s' \<Longrightarrow> pass_frame s' s'' \<Longrightarrow> pass_frame s s''"
  by (simp add: pass_frame_def)

lemma nested_pass: "nested_frame s s' \<Longrightarrow> pass_frame s s'"
  by (simp add: nested_frame_def pass_frame_def)

lemma grouped_Nil [simp]: "grouped paths []"
  unfolding grouped_def
  by (rule exI [of _ "replicate (length paths) 0"]) (induction paths, simp_all)

lemma grouped_Cons:
  assumes "\<forall>q \<in> set qs1. q = p" and "grouped paths qs2"
  shows "grouped (p # paths) (qs1 @ qs2)"
proof -
  from assms(2) obtain ns where n: "length ns = length paths"
    and q: "qs2 = concat (map2 replicate ns paths)" by (auto simp: grouped_def)
  have "qs1 = replicate (length qs1) p" using assms(1)
    by (induction qs1) auto
  then have "qs1 @ qs2 = concat (map2 replicate (length qs1 # ns) (p # paths))"
    using q by simp
  moreover have "length (length qs1 # ns) = length (p # paths)" using n by simp
  ultimately show ?thesis unfolding grouped_def by blast
qed

lemma grouped_subset: "grouped paths qs \<Longrightarrow> set qs \<subseteq> set paths"
proof -
  assume "grouped paths qs"
  then obtain ns where n: "length ns = length paths"
    and q: "qs = concat (map2 replicate ns paths)" by (auto simp: grouped_def)
  have "set (concat (map2 replicate ns paths)) \<subseteq> set paths"
    by (auto dest!: set_zip_rightD)
  with q show ?thesis by simp
qed

lemma foldl_resubscribe:
  "pass_frame s (foldl (resubscribe cb) s ps) \<and> calls (foldl (resubscribe cb) s ps) = calls s"
proof (induction ps arbitrary: s)
  case Nil
  show ?case by simp
next
  case (Cons p ps)
  have "pass_frame s (resubscribe cb s p) \<and> calls (resubscribe cb s p) = calls s"
    by (simp add: resubscribe_def subscribeInternal_def pass_frame_def Let_def
        split: option.splits)
  with Cons.IH [of "resubscribe cb s p"] show ?case
    by (auto intro: pass_frame_trans)
qed

lemma trigger_each_pass:
  assumes "quiet f"
  shows "isUpdating s \<Longrightarrow> trigger_each f q s cbs = (s', r) \<Longrightarrow>
         pass_frame s s' \<and> r \<noteq> Some OutOfFuel \<and>
         (\<exists>es. calls s' = calls s @ es \<and> internal_at q es)"
proof (induction cbs arbitrary: s)
  case Nil
  then show ?case by (simp add: internal_at_def)
next
  case (Cons cb cbs)
  define s1 where "s1 = s\<lparr>currentTracking := Some [],
                 calls := calls s @ [InternalCall (cb_id cb) q]\<rparr>"
  have u1: "isUpdating s1" using Cons.prems(1) by (simp add: s1_def)
  obtain s2 r2 where ra: "run_actions f s1 (cb_body cb) = (s2, r2)"
    by (cases "run_actions f s1 (cb_body cb)")
  from run_actions_nested [OF assms u1 ra]
  have f2: "nested_frame s1 s2" and r2: "r2 \<noteq> Some OutOfFuel" by simp_all
  have p2: "pass_frame s s2" using f2 by (simp add: nested_frame_def pass_frame_def s1_def)
  have c2: "calls s2 = calls s @ [InternalCall (cb_id cb) q]"
    using f2 by (simp add: nested_frame_def s1_def)
  show ?case
  proof (cases r2)
    case None
    define s4 where "s4 = foldl (resubscribe cb) (s2\<lparr>currentTracking := currentTracking s\<rparr>)
                      (case currentTracking s2 of None \<Rightarrow> [] | Some deps \<Rightarrow> deps)"
    have p4: "pass_frame s2 s4" and c4: "calls s4 = calls s2"
      using foldl_resubscribe [of "s2\<lparr>currentTracking := currentTracking s\<rparr>" cb]
      by (auto simp: s4_def pass_frame_def)
    have u4: "isUpdating s4" using p2 p4 Cons.prems(1) by (simp add: pass_frame_def)
    from Cons.prems(2) None ra have rest: "trigger_each f q s4 cbs = (s', r)"
      by (simp add: Let_def s1_def [symmetric] s4_def)
    from Cons.IH [OF u4 rest] obtain es where
      "pass_frame s4 s'" "r \<noteq> Some OutOfFuel" "calls s' = calls s4 @ es" "internal_at q es"
      by auto
    then have "pass_frame s s'" "calls s' = calls s @ (InternalCall (cb_id cb) q # es)"
      "internal_at q (InternalCall (cb_id cb) q # es)"
      using p2 p4 c2 c4 by (auto simp: internal_at_def intro: pass_frame_trans)
    with \<open>r \<noteq> Some OutOfFuel\<close> show ?thesis by blast
  next
    case (Some a)
    with Cons.prems(2) ra r2 have "pass_frame s2 s' \<and> calls s' = calls s2 \<and> r \<noteq> Some OutOfFuel"
      by (cases a) (auto simp: Let_def s1_def [symmetric] log_error_def pass_frame_def)
    then have "pass_frame s s'" "calls s' = calls s @ [InternalCall (cb_id cb) q]"
      "internal_at q [InternalCall (cb_id cb) q]" "r \<noteq> Some OutOfFuel"
      using p2 c2 by (auto simp: internal_at_def intro: pass_frame_trans)
    then show ?thesis by blast
  qed
qed

lemma triggerPathSubscribers_pass:
  assumes "quiet f" and "isUpdating s" and "triggerPathSubscribers f s q = (s', r)"
  shows "pass_frame s s' \<and> r \<noteq> Some OutOfFuel \<and>
         (\<exists>es. calls s' = calls s @ es \<and> internal_at q es)"
proof (cases "map_of (subscribers s) q")
  case None
  with assms(3) show ?thesis by (auto simp: triggerPathSubscribers_def internal_at_def)
next
  case (Some subs)
  with assms(3) have "trigger_each f q s subs = (s', r)"
    by (simp add: triggerPathSubscribers_def)
  from trigger_each_pass [OF assms(1) assms(2) this] show ?thesis .
qed

lemma trigger_all_pass:
  assumes "quiet f"
  shows "isUpdating s \<Longrightarrow> trigger_all f s paths = (s', r) \<Longrightarrow>
         pass_frame s s' \<and> r \<noteq> Some OutOfFuel \<and>
         (\<exists>es. calls s' = calls s @ es \<and> list_all is_internal es \<and>
               grouped paths (map event_path es))"
proof (induction paths arbitrary: s)
  case Nil
  then show ?case by simp
next
  case (Cons q paths)
  obtain s1 r1 where t: "triggerPathSubscribers f s q = (s1, r1)"
    by (cases "triggerPathSubscribers f s q")
  from triggerPathSubscribers_pass [OF assms Cons.prems(1) t] obtain es1 where
    p1: "pass_frame s s1" and r1: "r1 \<noteq> Some OutOfFuel"
    and c1: "calls s1 = calls s @ es1" and i1: "internal_at q es1" by auto
  have a1: "\<forall>x \<in> set (map event_path es1). x = q" "list_all is_internal es1"
    using i1 by (auto simp: internal_at_def list_all_iff)
  show ?case
  proof (cases r1)
    case None
    with Cons.prems(2) t have rest: "trigger_all f s1 paths = (s', r)" by simp
    have u1: "isUpdating s1" using p1 Cons.prems(1) by (simp add: pass_frame_def)
    from Cons.IH [OF u1 rest] obtain es where
      "pass_frame s1 s'" "r \<noteq> Some OutOfFuel" "calls s' = calls s1 @ es"
      "list_all is_internal es" "grouped paths (map event_path es)" by auto
    then have "pass_frame s s'" "calls s' = calls s @ (es1 @ es)"
      "list_all is_internal (es1 @ es)" "grouped (q # paths) (map event_path (es1 @ es))"
      using p1 c1 a1 grouped_Cons [OF a1(1), of paths "map event_path es"]
      by (auto intro: pass_frame_trans)
    with \<open>r \<noteq> Some OutOfFuel\<close> show ?thesis by blast
  next
    case (Some a)
    with Cons.prems(2) t have "s' = s1" "r = r1" by auto
    moreover have "grouped (q # paths) (map event_path (es1 @ []))"
      using grouped_Cons [OF a1(1), of paths "[]"] by simp
    ultimately show ?thesis using p1 r1 c1 a1 by auto
  qed
qed

lemma notify_each_pass:
  assumes "quiet f"
  shows "isUpdating s \<Longrightarrow> notify_each f cp nv ov s subs = (s', r) \<Longrightarrow>
         pass_frame s s' \<and> r \<noteq> Some OutOfFuel \<and>
         (r = None \<longrightarrow> calls s' = calls s @ external_events cp nv ov subs)"
proof (induction subs arbitrary: s)
  case Nil
  then show ?case by (simp add: external_events_def)
next
  case (Cons a subs)
  obtain sp x where a: "a = (sp, x)" by (cases a)
  show ?case
  proof (cases "shouldNotify x sp cp")
    case False
    with Cons.prems(2) a have rest: "notify_each f cp nv ov s subs = (s', r)" by simp
    from Cons.IH [OF Cons.prems(1) rest] False a show ?thesis
      by (simp add: external_events_def)
  next
    case True
    define s1 where "s1 = s\<lparr>calls := calls s @ [ExternalCall (sub_id x) nv ov cp]\<rparr>"
    have u1: "isUpdating s1" using Cons.prems(1) by (simp add: s1_def)
    obtain s2 r2 where ra: "run_actions f s1 (cb_body (sub_callback x)) = (s2, r2)"
      by (cases "run_actions f s1 (cb_body (sub_callback x))")
    from run_actions_nested [OF assms u1 ra]
    have f2: "nested_frame s1 s2" and r2: "r2 \<noteq> Some OutOfFuel" by simp_all
    have p2: "pass_frame s s2" using f2 by (simp add: nested_frame_def pass_frame_def s1_def)
    have c2: "calls s2 = calls s @ [ExternalCall (sub_id x) nv ov cp]"
      using f2 by (simp add: nested_frame_def s1_def)
    have ev: "external_events cp nv ov (a # subs) =
              ExternalCall (sub_id x) nv ov cp # external_events cp nv ov subs"
      using True a by (simp add: external_events_def)
    consider (ok) "r2 = None" | (thrown) e where "r2 = Some (Threw e)"
      | (other) "r2 = Some NotModelled"
      using r2 by (cases r2) (auto, metis abort.exhaust)
    then show ?thesis
    proof cases
      case ok
      with Cons.prems(2) a True ra have rest: "notify_each f cp nv ov s2 subs = (s', r)"
        by (simp add: Let_def s1_def [symmetric])
      have u2: "isUpdating s2" using p2 Cons.prems(1) by (simp add: pass_frame_def)
      from Cons.IH [OF u2 rest] p2 c2 ev show ?thesis
        by (auto intro: pass_frame_trans)
    next
      case thrown
      define s3 where "s3 = log_error (''External subscriber error: '' @ error_text e) s2"
      from thrown Cons.prems(2) a True ra have rest: "notify_each f cp nv ov s3 subs = (s', r)"
        by (simp add: Let_def s1_def [symmetric] s3_def)
      have p3: "pass_frame s s3" and c3: "calls s3 = calls s2"
        using p2 by (simp_all add: s3_def log_error_def pass_frame_def)
      have u3: "isUpdating s3" using p3 Cons.prems(1) by (simp add: pass_frame_def)
      from Cons.IH [OF u3 rest] p3 c3 c2 ev show ?thesis
        by (auto intro: pass_frame_trans)
    next
      case other
      with Cons.prems(2) a True ra have "s' = s2" "r = Some NotModelled"
        by (simp_all add: Let_def s1_def [symmetric])
      with p2 show ?thesis by simp
    qed
  qed
qed

lemma isValidPath_nonempty: "isValidPath p \<Longrightarrow> p \<noteq> []"
  by (auto simp: isValidPath_def trim_def)

lemma descendantPaths_prop:
  "p \<noteq> [] \<Longrightarrow> q \<in> set (descendantPaths s p) \<Longrightarrow> startsWith q (p @ ''.'') \<and> q \<noteq> p"
  by (auto simp: descendantPaths_def)

lemma notifySubscribers_pass:
  assumes "quiet f" and "isUpdating s"
    and "notifySubscribers f s p nv ov = (s', r)"
  shows "pass_frame s s' \<and> r \<noteq> Some OutOfFuel \<and>
         (\<exists>E1 E2 E3. calls s' = calls s @ E1 @ E2 @ E3 \<and> internal_at p E1 \<and>
            list_all is_internal E2 \<and> grouped (parentPaths p) (map event_path E2) \<and>
            (p \<noteq> [] \<longrightarrow> below p E3))"
proof -
  obtain s1 r1 where t1: "triggerPathSubscribers f s p = (s1, r1)"
    by (cases "triggerPathSubscribers f s p")
  from triggerPathSubscribers_pass [OF assms(1,2) t1] obtain E1 where
    p1: "pass_frame s s1" and r1: "r1 \<noteq> Some OutOfFuel"
    and c1: "calls s1 = calls s @ E1" and i1: "internal_at p E1" by auto
  have u1: "isUpdating s1" using p1 assms(2) by (simp add: pass_frame_def)
  show ?thesis
  proof (cases r1)
    case (Some a)
    with assms(3) t1 have "s' = s1" "r = r1" by (auto simp: notifySubscribers_def)
    then have "calls s' = calls s @ E1 @ [] @ []" "list_all is_internal []"
      "grouped (parentPaths p) (map event_path [])" "below p []"
      using c1 by (simp_all add: below_def)
    with p1 r1 i1 \<open>s' = s1\<close> \<open>r = r1\<close> show ?thesis by blast
  next
    case None
    obtain s2 r2 where t2: "trigger_all f s1 (parentPaths p) = (s2, r2)"
      by (cases "trigger_all f s1 (parentPaths p)")
    from trigger_all_pass [OF assms(1) u1 t2] obtain E2 where
      p2: "pass_frame s1 s2" and r2: "r2 \<noteq> Some OutOfFuel"
      and c2: "calls s2 = calls s1 @ E2" and i2: "list_all is_internal E2"
      and g2: "grouped (parentPaths p) (map event_path E2)" by auto
    have u2: "isUpdating s2" using p2 u1 by (simp add: pass_frame_def)
    show ?thesis
    proof (cases r2)
      case (Some a)
      with assms(3) t1 t2 None have "s' = s2" "r = r2" by (auto simp: notifySubscribers_def)
      then have "calls s' = calls s @ E1 @ E2 @ []" "below p []"
        using c1 c2 by (simp_all add: below_def)
      moreover have "pass_frame s s'" using p1 p2 \<open>s' = s2\<close> by (auto intro: pass_frame_trans)
      ultimately show ?thesis using r2 i1 i2 g2 \<open>r = r2\<close> by blast
    next
      case n2: None
      with assms(3) t1 t2 None
      have t3: "trigger_all f s2 (descendantPaths s2 p) = (s', r)"
        by (auto simp: notifySubscribers_def)
      from trigger_all_pass [OF assms(1) u2 t3] obtain E3 where
        p3: "pass_frame s2 s'" and r3: "r \<noteq> Some OutOfFuel"
        and c3: "calls s' = calls s2 @ E3" and i3: "list_all is_internal E3"
        and g3: "grouped (descendantPaths s2 p) (map event_path E3)" by auto
      have sub: "set (map event_path E3) \<subseteq> set (descendantPaths s2 p)"
        using g3 by (rule grouped_subset)
      have "p \<noteq> [] \<longrightarrow> below p E3"
      proof
        assume ne: "p \<noteq> []"
        show "below p E3"
          using sub i3 descendantPaths_prop [OF ne, of _ s2]
          by (auto simp: below_def list_all_iff)
      qed
      moreover have "calls s' = calls s @ E1 @ E2 @ E3" using c1 c2 c3 by simp
      moreover have "pass_frame s s'" using p1 p2 p3 by (auto intro: pass_frame_trans)
      ultimately show ?thesis using r3 i1 i2 g2 by blast
    qed
  qed
qed

lemma getState_fields [simp]:
  "state (snd (getState s p d)) = state s"
  "middleware (snd (getState s p d)) = middleware s"
  "isUpdating (snd (getState s p d)) = isUpdating s"
  "calls (snd (getState s p d)) = calls s"
  "subscribers (snd (getState s p d)) = subscribers s"
  "externalSubscribers (snd (getState s p d)) = externalSubscribers s"
  "currentlyUpdating (snd (getState s p d)) = currentlyUpdating s"
  "batchingEnabled (snd (getState s p d)) = batchingEnabled s"
  "batchDelayMs (snd (getState s p d)) = batchDelayMs s"
  by (simp_all add: getState_def warn_def Let_def split: option.splits)

lemma setStateImmediate_unfold:
  "setStateImmediate f s p v c =
     (let s2 = (snd (getState s p Null))\<lparr>console := console (snd (getState s p Null)) @
                 snd (runMiddleware (middleware s) p (oldValueAt s p) c (state s) (v, []))\<rparr>
      in if deepEquals (oldValueAt s p) (finalValueFor s p v c) then (s2, None)
         else
           case writePath (Obj (state s)) (getPathParts p) (finalValueFor s p v c) of
             Inl a \<Rightarrow> (s2, Some a)
           | Inr root \<Rightarrow>
               if \<not> isUpdating s then
                 (case notifySubscribers f
                         (s2\<lparr>state := ownProps root, isUpdating := True,
                             currentlyUpdating := sadd (currentlyUpdating s) p\<rparr>)
                         p (finalValueFor s p v c) (oldValueAt s p) of
                    (s5, Some a) \<Rightarrow> (s5, Some a)
                  | (s5, None) \<Rightarrow>
                      (case notifyExternalSubscribers f s5 p (finalValueFor s p v c)
                              (oldValueAt s p) of
                         (s6, Some a) \<Rightarrow> (s6, Some a)
                       | (s6, None) \<Rightarrow>
                           (s6\<lparr>currentlyUpdating := sdelete (currentlyUpdating s6) p,
                               isUpdating := False\<rparr>, None)))
               else (s2\<lparr>state := ownProps root\<rparr>, None))"
proof -
  obtain old s1 where g: "getState s p Null = (old, s1)" by (cases "getState s p Null")
  have s1: "s1 = snd (getState s p Null)" and o: "old = oldValueAt s p"
    using g by (simp_all add: oldValueAt_def)
  have f1: "middleware s1 = middleware s" "state s1 = state s" "isUpdating s1 = isUpdating s"
    "currentlyUpdating s1 = currentlyUpdating s"
    unfolding s1 by simp_all
  obtain fin out where m: "runMiddleware (middleware s) p old c (state s) (v, []) = (fin, out)"
    by (cases "runMiddleware (middleware s) p old c (state s) (v, [])")
  have fin: "fin = finalValueFor s p v c"
    using m o by (simp add: finalValueFor_def)
  have "setStateImmediate f s p v c =
     (let s2 = s1\<lparr>console := console s1 @ out\<rparr>
      in if deepEquals old fin then (s2, None)
         else
           case writePath (Obj (state s)) (getPathParts p) fin of
             Inl a \<Rightarrow> (s2, Some a)
           | Inr root \<Rightarrow>
               if \<not> isUpdating s then
                 (case notifySubscribers f
                         (s2\<lparr>state := ownProps root, isUpdating := True,
                             currentlyUpdating := sadd (currentlyUpdating s) p\<rparr>)
                         p fin old of
                    (s5, Some a) \<Rightarrow> (s5, Some a)
                  | (s5, None) \<Rightarrow>
                      (case notifyExternalSubscribers f s5 p fin old of
                         (s6, Some a) \<Rightarrow> (s6, Some a)
                       | (s6, None) \<Rightarrow>
                           (s6\<lparr>currentlyUpdating := sdelete (currentlyUpdating s6) p,
                               isUpdating := False\<rparr>, None)))
               else (s2\<lparr>state := ownProps root\<rparr>, None))"
    unfolding setStateImmediate_def g by (simp add: f1 m Let_def split: sum.splits)
  then show ?thesis
    unfolding fin [symmetric] o [symmetric] s1 [symmetric] using m by simp
qed

lemma setStateImmediate_top:
  assumes q: "quiet f" and top: "\<not> isUpdating s"
    and run: "setStateImmediate f s p v c = (s', r)"
    and changed: "\<not> deepEquals (oldValueAt s p) (finalValueFor s p v c)"
    and wrote: "writePath (Obj (state s)) (getPathParts p) (finalValueFor s p v c) = Inr root"
  shows "r \<noteq> Some OutOfFuel \<and> externalSubscribers s' = externalSubscribers s \<and>
         middleware s' = middleware s \<and>
         batchingEnabled s' = batchingEnabled s \<and> batchDelayMs s' = batchDelayMs s \<and>
         (r \<noteq> None \<longrightarrow> isUpdating s') \<and>
         (r = None \<longrightarrow> \<not> isUpdating s' \<and>
            currentlyUpdating s' = sdelete (sadd (currentlyUpdating s) p) p \<and>
            (\<exists>E1 E2 E3. calls s' = calls s @ E1 @ E2 @ E3 @
                 external_events p (finalValueFor s p v c) (oldValueAt s p)
                   (subscriptionsInOrder s) \<and>
               internal_at p E1 \<and> list_all is_internal E2 \<and>
               grouped (parentPaths p) (map event_path E2) \<and>
               (p \<noteq> [] \<longrightarrow> below p E3)))"
proof -
  define s2 where "s2 = (snd (getState s p Null))\<lparr>console := console (snd (getState s p Null)) @
                 snd (runMiddleware (middleware s) p (oldValueAt s p) c (state s) (v, []))\<rparr>"
  define s4 where "s4 = s2\<lparr>state := ownProps root, isUpdating := True,
                             currentlyUpdating := sadd (currentlyUpdating s) p\<rparr>"
  define fin where "fin = finalValueFor s p v c"
  define old where "old = oldValueAt s p"
  have u4: "isUpdating s4" by (simp add: s4_def)
  have e4: "externalSubscribers s4 = externalSubscribers s" "calls s4 = calls s"
    "middleware s4 = middleware s" "batchingEnabled s4 = batchingEnabled s"
    "batchDelayMs s4 = batchDelayMs s"
    "currentlyUpdating s4 = sadd (currentlyUpdating s) p"
    by (simp_all add: s4_def s2_def)
  obtain s5 r5 where n: "notifySubscribers f s4 p fin old = (s5, r5)"
    by (cases "notifySubscribers f s4 p fin old")
  from notifySubscribers_pass [OF q u4 n] obtain E1 E2 E3 where
    p5: "pass_frame s4 s5" and r5: "r5 \<noteq> Some OutOfFuel"
    and c5: "calls s5 = calls s4 @ E1 @ E2 @ E3" and i: "internal_at p E1"
       "list_all is_internal E2" "grouped (parentPaths p) (map event_path E2)"
       "p \<noteq> [] \<longrightarrow> below p E3"
    by blast
  have u5: "isUpdating s5" and e5: "externalSubscribers s5 = externalSubscribers s"
    "middleware s5 = middleware s" "batchingEnabled s5 = batchingEnabled s"
    "batchDelayMs s5 = batchDelayMs s"
    "currentlyUpdating s5 = sadd (currentlyUpdating s) p"
    using p5 u4 e4 by (simp_all add: pass_frame_def)
  from run changed wrote top n
  have run': "(case (s5, r5) of
                 (s5, Some a) \<Rightarrow> (s5, Some a)
               | (s5, None) \<Rightarrow>
                   (case notifyExternalSubscribers f s5 p fin old of
                      (s6, Some a) \<Rightarrow> (s6, Some a)
                    | (s6, None) \<Rightarrow>
                        (s6\<lparr>currentlyUpdating := sdelete (currentlyUpdating s6) p,
                            isUpdating := False\<rparr>, None))) = (s', r)"
    unfolding setStateImmediate_unfold Let_def s2_def [symmetric]
    by (simp add: s4_def fin_def old_def)
  show ?thesis
  proof (cases r5)
    case (Some a)
    with run' have "s' = s5" "r = r5" by auto
    with Some r5 u5 e5 show ?thesis by simp
  next
    case None
    obtain s6 r6 where x: "notifyExternalSubscribers f s5 p fin old = (s6, r6)"
      by (cases "notifyExternalSubscribers f s5 p fin old")
    then have x': "notify_each f p fin old s5 (subscriptionsInOrder s) = (s6, r6)"
      using e5(1) by (simp add: notifyExternalSubscribers_def subscriptionsInOrder_def)
    from notify_each_pass [OF q u5 x'] have
      p6: "pass_frame s5 s6" and r6: "r6 \<noteq> Some OutOfFuel"
      and c6: "r6 = None \<longrightarrow> calls s6 = calls s5 @
                 external_events p fin old (subscriptionsInOrder s)" by simp_all
    have u6: "isUpdating s6" and e6: "externalSubscribers s6 = externalSubscribers s"
      "middleware s6 = middleware s" "batchingEnabled s6 = batchingEnabled s"
      "batchDelayMs s6 = batchDelayMs s"
      "currentlyUpdating s6 = sadd (currentlyUpdating s) p"
      using p6 u5 e5 by (simp_all add: pass_frame_def)
    show ?thesis
    proof (cases r6)
      case (Some a)
      with run' None x have "s' = s6" "r = r6" by auto
      with Some r6 u6 e6 show ?thesis by simp
    next
      case n6: None
      with run' None x have s': "s' = s6\<lparr>currentlyUpdating := sdelete (currentlyUpdating s6) p,
                            isUpdating := False\<rparr>" and r: "r = None" by auto
      have "calls s' = calls s @ E1 @ E2 @ E3 @
              external_events p fin old (subscriptionsInOrder s)"
        using s' c6 n6 c5 e4 by simp
      with i s' r e6 show ?thesis unfolding fin_def old_def by auto
    qed
  qed
qed


lemma setStateImmediate_fuel:
  assumes "quiet f" and "setStateImmediate f s p v c = (s', r)"
  shows "r \<noteq> Some OutOfFuel"
proof (cases "isUpdating s")
  case True
  from setStateImmediate_nested [OF True assms(2)] show ?thesis by simp
next
  case False
  show ?thesis
  proof (cases "deepEquals (oldValueAt s p) (finalValueFor s p v c)")
    case True
    with assms(2) show ?thesis by (auto simp: setStateImmediate_unfold Let_def)
  next
    case ne: False
    show ?thesis
    proof (cases "writePath (Obj (state s)) (getPathParts p) (finalValueFor s p v c)")
      case (Inl a)
      with assms(2) ne have "r = Some a" by (auto simp: setStateImmediate_unfold Let_def)
      moreover have "a \<noteq> OutOfFuel" using Inl writePath_fuel by metis
      ultimately show ?thesis by simp
    next
      case (Inr root)
      from setStateImmediate_top [OF assms(1) False assms(2) ne Inr] show ?thesis by simp
    qed
  qed
qed

lemma apply_updates_fuel:
  assumes "quiet f"
  shows "apply_updates f s us = (s', r) \<Longrightarrow> r \<noteq> Some OutOfFuel"
proof (induction us arbitrary: s)
  case Nil
  then show ?case by simp
next
  case (Cons u us)
  obtain s1 r1 where st: "setStateImmediate f s (upd_path u) (upd_value u) (upd_context u) = (s1, r1)"
    by (cases "setStateImmediate f s (upd_path u) (upd_value u) (upd_context u)")
  from setStateImmediate_fuel [OF assms st] have r1: "r1 \<noteq> Some OutOfFuel" .
  show ?case
  proof (cases r1)
    case None
    with Cons.prems st have "apply_updates f s1 us = (s', r)" by simp
    from Cons.IH [OF this] show ?thesis .
  next
    case (Some a)
    with Cons.prems st r1 show ?thesis by auto
  qed
qed

lemma processBatchedUpdates_fuel:
  assumes "quiet f" and "processBatchedUpdates f s = (s', r)"
  shows "r \<noteq> Some OutOfFuel"
proof (cases "batchUpdateInProgress s \<or> updateQueue s = []")
  case True
  with assms(2) show ?thesis by (auto simp: processBatchedUpdates_def)
next
  case False
  define s2 where "s2 = (case batchTimeout (s\<lparr>batchUpdateInProgress := True\<rparr>) of
                    None \<Rightarrow> s\<lparr>batchUpdateInProgress := True\<rparr>
                  | Some t \<Rightarrow> (clearTimeout (s\<lparr>batchUpdateInProgress := True\<rparr>) t)\<lparr>batchTimeout := None\<rparr>)"
  define n where "n = nat (min (maxBatchSize s2) (int (length (updateQueue s2))))"
  define s3 where "s3 = s2\<lparr>updateQueue := drop n (updateQueue s2)\<rparr>"
  define us where "us = map snd (pathGroups (take n (updateQueue s2)))"
  obtain s4 r4 where a: "apply_updates f s3 us = (s4, r4)" by (cases "apply_updates f s3 us")
  from apply_updates_fuel [OF assms(1) a] have r4: "r4 \<noteq> Some OutOfFuel" .
  from assms(2) False a show ?thesis
    using r4
    unfolding processBatchedUpdates_def Let_def s2_def [symmetric] n_def [symmetric]
      s3_def [symmetric] us_def [symmetric]
    by (auto split: option.splits abort.splits if_splits)
qed

lemma setState_body_fuel:
  assumes "quiet f" and "setState_body f s p v c = (s', r)"
  shows "r \<noteq> Some OutOfFuel"
proof -
  have q: "queueUpdate f s p v c = (s', r) \<Longrightarrow> r \<noteq> Some OutOfFuel"
    using processBatchedUpdates_fuel [OF assms(1)]
    by (auto simp: queueUpdate_def Let_def setTimeout_def split: if_splits)
  from assms(2) show ?thesis
    using q setStateImmediate_fuel [OF assms(1), of s p v c s' r]
    by (auto simp: setState_body_def hasCircularUpdate_def split: if_splits)
qed


lemma trigger_all_no_subscribers:
  "subscribers s = [] \<Longrightarrow> trigger_all f s paths = (s, None)"
  by (induction paths) (simp_all add: triggerPathSubscribers_def)

lemma notifySubscribers_no_subscribers:
  "subscribers s = [] \<Longrightarrow> notifySubscribers f s p nv ov = (s, None)"
  by (simp add: notifySubscribers_def triggerPathSubscribers_def trigger_all_no_subscribers)

lemma getState_console:
  "isValidPath p \<Longrightarrow> console (snd (getState s p d)) = console s"
  by (simp add: getState_def Let_def split: option.splits)

lemma setState_circular:
  assumes "isValidPath p" and "p \<in> set (currentlyUpdating t)"
  shows "setState_fuel (Suc n) t p w c =
           (warn (''Circular dependency detected for path: '' @ p) t, None)"
  using assms by (simp add: setState_body_def hasCircularUpdate_def)

lemma setState_top_immediate:
  assumes "isValidPath p" and "p \<notin> set (currentlyUpdating s)"
    and "\<not> (batchingEnabled s \<and> 0 < batchDelayMs s)"
  shows "setState s p v c = setStateImmediate (setState_fuel 1) s p v c"
proof -
  have "setState s p v c = setState_body (setState_fuel 1) s p v c"
    by (simp add: setState_def numeral_2_eq_2)
  with assms show ?thesis by (auto simp: setState_body_def hasCircularUpdate_def)
qed

lemma setState_fuel_quiet1: "quiet (setState_fuel 1)"
  using setState_fuel_quiet [of 0] by simp

lemma setState_fuel_enough: "snd (setState s p v c) \<noteq> Some OutOfFuel"
proof -
  obtain s' r where run: "setState_body (setState_fuel 1) s p v c = (s', r)"
    by (cases "setState_body (setState_fuel 1) s p v c")
  have "setState s p v c = setState_body (setState_fuel 1) s p v c"
    by (simp add: setState_def numeral_2_eq_2)
  with setState_body_fuel [OF setState_fuel_quiet1 run] show ?thesis using run by simp
qed

lemma fireTimer_fuel_enough: "snd (fireTimer s t) \<noteq> Some OutOfFuel"
proof (cases "t \<in> set (timers s)")
  case True
  obtain s' r where
    run: "processBatchedUpdates (setState_fuel 1) (s\<lparr>timers := sdelete (timers s) t\<rparr>) = (s', r)"
    by (cases "processBatchedUpdates (setState_fuel 1) (s\<lparr>timers := sdelete (timers s) t\<rparr>)")
  from processBatchedUpdates_fuel [OF setState_fuel_quiet1 run] True show ?thesis
    using run by (simp add: fireTimer_def)
next
  case False
  then show ?thesis by (simp add: fireTimer_def)
qed

section \<open>Example stores\<close>

definition store_with_writer :: store where
  \<comment> \<open>a fresh store with one subscriber on \<open>a\<close> whose callback calls \<open>setState("a", 2)\<close>\<close>
  "store_with_writer =
     snd (subscribe (newStateManager [] []) ''a'' (Callback 0 [CallSetState ''a'' (Num 2)]) True)"

definition store_with_watchers :: store where
  \<comment> \<open>reactive callbacks on \<open>a.b\<close>, \<open>a\<close> and \<open>a.b.c\<close>, then \<open>subscribe\<close> on \<open>a\<close> and on \<open>a.b\<close>\<close>
  "store_with_watchers =
     snd (subscribe
       (snd (subscribe
          (subscribeInternal
             (subscribeInternal
                (subscribeInternal (newStateManager [] []) ''a.b.c'' (Callback 3 []))
                ''a'' (Callback 2 []))
             ''a.b'' (Callback 1 []))
          ''a'' (Callback 10 []) True))
       ''a.b'' (Callback 11 []) True)"


definition store_in_pass :: store where
  \<comment> \<open>the store a callback sees during the pass of \<open>setState("a", 1)\<close>, with a subscriber
      on \<open>b\<close>\<close>
  "store_in_pass =
     (snd (subscribe (newStateManager [(''a'', Num 1)] []) ''b'' (Callback 0 []) True))
       \<lparr>isUpdating := True, currentlyUpdating := [''a'']\<rparr>"

definition batched_store :: store where
  \<comment> \<open>batching with a delay of 10 ms; the subscriber on \<open>a\<close> calls \<open>setState("b", 2)\<close>, and
      \<open>b\<close> has a subscriber too\<close>
  "batched_store =
     snd (subscribe
       (snd (subscribe ((newStateManager [] [])\<lparr>batchDelayMs := 10\<rparr>)
               ''a'' (Callback 0 [CallSetState ''b'' (Num 2)]) True))
       ''b'' (Callback 1 []) True)"

section \<open>The circular-update guard\<close>

text \<open>
  C4. A subscriber on a path that calls \<open>setState\<close> on that same path from inside its own
  callback does not recurse: on a store whose only subscriber is that one, a top-level
  \<open>setState(p, v)\<close> that changes the value returns normally, the state tree is the one the
  outer call wrote, the callback ran once, and the only thing the nested call left behind
  is the warning on the console (after the lines the middleware of the outer call may
  have logged: the nested call runs no middleware). The last conjunct is the guard
  itself: on any store \<open>t\<close> where \<open>p\<close> is being notified, \<open>setState(p, ...)\<close> only logs
  the warning.
\<close>

theorem circular_update_dropped:
  assumes valid: "isValidPath p"
    and top: "\<not> isUpdating s" "p \<notin> set (currentlyUpdating s)"
    and unbatched: "\<not> (batchingEnabled s \<and> 0 < batchDelayMs s)"
    and subs: "subscribers s = []"
      "externalSubscribers s = [(p, [Subscription i (Callback j [CallSetState p w]) h])]"
    and changed: "\<not> deepEquals (oldValueAt s p) (finalValueFor s p v c)"
    and wrote: "writePath (Obj (state s)) (getPathParts p) (finalValueFor s p v c) = Inr root"
    and inflight: "p \<in> set (currentlyUpdating t)"
  shows "snd (setState s p v c) = None \<and>
         state (fst (setState s p v c)) = ownProps root \<and>
         calls (fst (setState s p v c)) =
           calls s @ [ExternalCall i (finalValueFor s p v c) (oldValueAt s p) p] \<and>
         console (fst (setState s p v c)) =
           console s @ snd (runMiddleware (middleware s) p (oldValueAt s p) c (state s) (v, []))
             @ [Warn (''Circular dependency detected for path: '' @ p)] \<and>
         \<not> isUpdating (fst (setState s p v c)) \<and>
         setState t p w' c' = (warn (''Circular dependency detected for path: '' @ p) t, None)"
proof -
  have nested: "setState t p w' c' = (warn (''Circular dependency detected for path: '' @ p) t, None)"
    using setState_circular [OF valid inflight, of 1 w' c'] by (simp add: setState_def numeral_2_eq_2)
  define s2 where "s2 = (snd (getState s p Null))\<lparr>console := console (snd (getState s p Null)) @
                 snd (runMiddleware (middleware s) p (oldValueAt s p) c (state s) (v, []))\<rparr>"
  define s4 where "s4 = s2\<lparr>state := ownProps root, isUpdating := True,
                             currentlyUpdating := sadd (currentlyUpdating s) p\<rparr>"
  define fin where "fin = finalValueFor s p v c"
  define old where "old = oldValueAt s p"
  define s5 where "s5 = s4\<lparr>calls := calls s4 @ [ExternalCall i fin old p]\<rparr>"
  have n4: "notifySubscribers (setState_fuel 1) s4 p fin old = (s4, None)"
    by (rule notifySubscribers_no_subscribers) (simp add: s4_def s2_def subs)
  have inf: "p \<in> set (currentlyUpdating s5)" by (simp add: s5_def s4_def sadd_def)
  have "setState_fuel 1 s5 p w (Obj []) =
          (warn (''Circular dependency detected for path: '' @ p) s5, None)"
    using setState_circular [OF valid inf, of 0] by simp
  then have x4: "notifyExternalSubscribers (setState_fuel 1) s4 p fin old =
          (warn (''Circular dependency detected for path: '' @ p) s5, None)"
    by (simp add: notifyExternalSubscribers_def subscriptionsInOrder_def s4_def s2_def subs
        shouldNotify_def s5_def)
  have "setState s p v c =
          ((warn (''Circular dependency detected for path: '' @ p) s5)
             \<lparr>currentlyUpdating := sdelete (currentlyUpdating
                  (warn (''Circular dependency detected for path: '' @ p) s5)) p,
              isUpdating := False\<rparr>, None)"
    unfolding setState_top_immediate [OF valid top(2) unbatched] setStateImmediate_unfold Let_def
      s2_def [symmetric]
    using changed wrote top(1) n4 x4 by (simp add: fin_def old_def s4_def)
  then show ?thesis
    using nested
    by (simp add: warn_def s5_def s4_def s2_def fin_def old_def getState_console [OF valid])
qed

theorem circular_update_dropped_witness:
  "isValidPath ''a'' \<and> \<not> isUpdating store_with_writer \<and>
   ''a'' \<notin> set (currentlyUpdating store_with_writer) \<and>
   \<not> (batchingEnabled store_with_writer \<and> 0 < batchDelayMs store_with_writer) \<and>
   subscribers store_with_writer = [] \<and>
   externalSubscribers store_with_writer =
     [(''a'', [Subscription 0 (Callback 0 [CallSetState ''a'' (Num 2)]) True])] \<and>
   \<not> deepEquals (oldValueAt store_with_writer ''a'')
        (finalValueFor store_with_writer ''a'' (Num 1) (Obj [])) \<and>
   writePath (Obj (state store_with_writer)) (getPathParts ''a'')
     (finalValueFor store_with_writer ''a'' (Num 1) (Obj [])) = Inr (Obj [(''a'', Num 1)]) \<and>
   ''a'' \<in> set (currentlyUpdating store_in_pass) \<and>
   snd (setState store_with_writer ''a'' (Num 1) (Obj [])) = None \<and>
   state (fst (setState store_with_writer ''a'' (Num 1) (Obj []))) = [(''a'', Num 1)] \<and>
   calls (fst (setState store_with_writer ''a'' (Num 1) (Obj []))) =
     [ExternalCall 0 (Num 1) Null ''a''] \<and>
   console (fst (setState store_with_writer ''a'' (Num 1) (Obj []))) =
     [Warn ''Circular dependency detected for path: a''] \<and>
   setState store_in_pass ''a'' (Num 5) (Obj []) =
     (warn ''Circular dependency detected for path: a'' store_in_pass, None)"
proof -
  have h1: "isValidPath ''a''" by code_simp
  have h2: "\<not> isUpdating store_with_writer" by code_simp
  have h3: "''a'' \<notin> set (currentlyUpdating store_with_writer)" by code_simp
  have h4: "\<not> (batchingEnabled store_with_writer \<and> 0 < batchDelayMs store_with_writer)"
    by code_simp
  have h5: "subscribers store_with_writer = []" by code_simp
  have h6: "externalSubscribers store_with_writer =
     [(''a'', [Subscription 0 (Callback 0 [CallSetState ''a'' (Num 2)]) True])]" by code_simp
  have h7: "\<not> deepEquals (oldValueAt store_with_writer ''a'')
        (finalValueFor store_with_writer ''a'' (Num 1) (Obj []))" by code_simp
  have h8: "writePath (Obj (state store_with_writer)) (getPathParts ''a'')
     (finalValueFor store_with_writer ''a'' (Num 1) (Obj [])) = Inr (Obj [(''a'', Num 1)])"
    by code_simp
  have h9: "''a'' \<in> set (currentlyUpdating store_in_pass)" by code_simp
  have v: "finalValueFor store_with_writer ''a'' (Num 1) (Obj []) = Num 1"
    "oldValueAt store_with_writer ''a'' = Null"
    "console store_with_writer = []" "calls store_with_writer = []"
    "middleware store_with_writer = []" by code_simp+
  from circular_update_dropped [OF h1 h2 h3 h4 h5 h6 h7 h8 h9, of "Num 5" "Obj []"]
  show ?thesis using h1 h2 h3 h4 h5 h6 h7 h8 h9 by (simp add: v)
qed

section \<open>The order of notification\<close>




section \<open>Writes from inside a notification pass\<close>

text \<open>
  C10, as the code has it. With batching inactive, a \<open>setState(p2, v2)\<close> called while a
  notification pass is running (\<open>isUpdating\<close> holds: \<open>_setStateImmediate\<close> sets it before it
  notifies and clears it after), on a path that is not the one being notified, calls no
  callback and changes no subscription; the middleware and the deep-equality skip apply
  as usual, and the value is written unless the skip applies or the write throws.
\<close>

theorem nested_set_is_silent:
  assumes inside: "isUpdating s"
    and valid: "isValidPath p2"
    and other: "p2 \<notin> set (currentlyUpdating s)"
    and unbatched: "\<not> (batchingEnabled s \<and> 0 < batchDelayMs s)"
  shows "calls (fst (setState s p2 v2 c)) = calls s \<and>
         subscribers (fst (setState s p2 v2 c)) = subscribers s \<and>
         externalSubscribers (fst (setState s p2 v2 c)) = externalSubscribers s \<and>
         isUpdating (fst (setState s p2 v2 c)) \<and>
         state (fst (setState s p2 v2 c)) =
           (if deepEquals (oldValueAt s p2) (finalValueFor s p2 v2 c) then state s
            else case writePath (Obj (state s)) (getPathParts p2) (finalValueFor s p2 v2 c) of
                   Inl a \<Rightarrow> state s
                 | Inr root \<Rightarrow> ownProps root) \<and>
         snd (setState s p2 v2 c) =
           (if deepEquals (oldValueAt s p2) (finalValueFor s p2 v2 c) then None
            else case writePath (Obj (state s)) (getPathParts p2) (finalValueFor s p2 v2 c) of
                   Inl a \<Rightarrow> Some a
                 | Inr root \<Rightarrow> None)"
  unfolding setState_top_immediate [OF valid other unbatched] setStateImmediate_unfold Let_def
  using inside by (simp split: sum.splits)

theorem nested_set_is_silent_witness:
  "isUpdating store_in_pass \<and> isValidPath ''b'' \<and>
   ''b'' \<notin> set (currentlyUpdating store_in_pass) \<and>
   \<not> (batchingEnabled store_in_pass \<and> 0 < batchDelayMs store_in_pass) \<and>
   externalSubscribers store_in_pass = [(''b'', [Subscription 0 (Callback 0 []) True])] \<and>
   calls (fst (setState store_in_pass ''b'' (Num 2) (Obj []))) = calls store_in_pass \<and>
   externalSubscribers (fst (setState store_in_pass ''b'' (Num 2) (Obj []))) =
     externalSubscribers store_in_pass \<and>
   state (fst (setState store_in_pass ''b'' (Num 2) (Obj []))) =
     [(''a'', Num 1), (''b'', Num 2)]"
proof -
  have h1: "isUpdating store_in_pass" by code_simp
  have h2: "isValidPath ''b''" by code_simp
  have h3: "''b'' \<notin> set (currentlyUpdating store_in_pass)" by code_simp
  have h4: "\<not> (batchingEnabled store_in_pass \<and> 0 < batchDelayMs store_in_pass)" by code_simp
  have h5: "externalSubscribers store_in_pass = [(''b'', [Subscription 0 (Callback 0 []) True])]"
    by code_simp
  have v: "\<not> deepEquals (oldValueAt store_in_pass ''b'')
              (finalValueFor store_in_pass ''b'' (Num 2) (Obj []))"
    "writePath (Obj (state store_in_pass)) (getPathParts ''b'')
       (finalValueFor store_in_pass ''b'' (Num 2) (Obj [])) =
     Inr (Obj [(''a'', Num 1), (''b'', Num 2)])" by code_simp+
  from nested_set_is_silent [OF h1 h2 h3 h4, of "Num 2" "Obj []"]
  show ?thesis using h1 h2 h3 h4 h5 by (simp add: v)
qed

text \<open>
  With batching active the nested call only queues the update: after the flush that ran
  the pass of \<open>a\<close>, \<open>b\<close> is not in the state tree; the next flush writes it and calls the
  subscriber of \<open>b\<close>.
\<close>

theorem nested_set_is_silent_counterexample:
  "batchingEnabled batched_store \<and> 0 < batchDelayMs batched_store \<and>
   state (fst (fireTimer (fst (setState batched_store ''a'' (Num 1) (Obj []))) 1)) =
     [(''a'', Num 1)] \<and>
   calls (fst (fireTimer (fst (setState batched_store ''a'' (Num 1) (Obj []))) 1)) =
     [ExternalCall 0 (Num 1) Null ''a''] \<and>
   map upd_path (updateQueue (fst (fireTimer (fst (setState batched_store ''a'' (Num 1) (Obj []))) 1)))
     = [''b''] \<and>
   state (fst (fireTimer (fst (fireTimer (fst (setState batched_store ''a'' (Num 1) (Obj []))) 1)) 2)) =
     [(''a'', Num 1), (''b'', Num 2)] \<and>
   calls (fst (fireTimer (fst (fireTimer (fst (setState batched_store ''a'' (Num 1) (Obj []))) 1)) 2)) =
     [ExternalCall 0 (Num 1) Null ''a'', ExternalCall 1 (Num 2) Null ''b'']"
  by code_simp


section \<open>Writing and reading back\<close>

text \<open>
  \<open>is_container\<close>: an object or an array. \<open>reads_only\<close>: a callback that never calls
  \<open>setState\<close>. \<open>read_only_subscribers\<close>: every callback registered on the store, reactive
  or given to \<open>subscribe\<close>, only reads.
\<close>

definition is_container :: "jsval \<Rightarrow> bool" where
  "is_container v = (typeof_object v \<and> \<not> is_nullish v)"






lemma map_of_mset: "map_of (mset kvs k v) = (map_of kvs)(k \<mapsto> v)"
  by (induction kvs) auto

lemma lookup_mset [simp]: "lookup (mset kvs k v) k = v"
  by (simp add: lookup_def map_of_mset)

lemma is_container_cases: "is_container c \<longleftrightarrow> (\<exists>kvs. c = Obj kvs) \<or> (\<exists>n kvs. c = Arr n kvs)"
  by (cases c) (auto simp: is_container_def is_nullish_def)


























lemma runMiddleware_none [simp]: "runMiddleware [] p old c st (v, out) = (v, out)"
  by simp





section \<open>Subscribing and unsubscribing\<close>

text \<open>
  \<open>times_called i es\<close> counts the calls of the callback of subscription \<open>i\<close> among the
  events \<open>es\<close>. \<open>fresh_identities\<close> says that the subscriptions of a store are older than
  the next one it will create: it holds of a new store and \<open>subscribe\<close> keeps it.
\<close>

fun is_call_of :: "nat \<Rightarrow> event \<Rightarrow> bool" where
  "is_call_of i (ExternalCall j nv ov cp) = (j = i)"
| "is_call_of i (InternalCall j q) = False"

definition times_called :: "nat \<Rightarrow> event list \<Rightarrow> nat" where
  "times_called i es = length (filter (is_call_of i) es)"

definition fresh_identities :: "store \<Rightarrow> bool" where
  "fresh_identities s =
     list_all (\<lambda>(sp, x). sub_id x < nextSubscription s) (subscriptionsInOrder s)"

definition flat :: "(string \<times> subscription list) list \<Rightarrow> (string \<times> subscription) list" where
  "flat m = concat (map (\<lambda>(sp, subs). map (Pair sp) subs) m)"

lemma subscriptionsInOrder_flat: "subscriptionsInOrder s = flat (externalSubscribers s)"
  by (simp add: subscriptionsInOrder_def flat_def)

lemma flat_Cons [simp]: "flat ((k, ys) # m) = map (Pair k) ys @ flat m"
  by (simp add: flat_def)

lemma flat_Nil [simp]: "flat [] = []"
  by (simp add: flat_def)

lemma filter_flat_subscribe:
  assumes "\<forall>(k, y) \<in> set (flat m). sub_id y \<noteq> n" and "sub_id x = n"
  shows "filter (\<lambda>(k, y). sub_id y = n)
           (flat (mset m p (sadd (case map_of m p of None \<Rightarrow> [] | Some ys \<Rightarrow> ys) x))) = [(p, x)]"
  using assms(1)
proof (induction m)
  case Nil
  then show ?case using assms(2) by (simp add: sadd_def)
next
  case (Cons a m)
  obtain k ys where a: "a = (k, ys)" by (cases a)
  have old: "\<forall>y \<in> set ys. sub_id y \<noteq> n" "\<forall>(k, y) \<in> set (flat m). sub_id y \<noteq> n"
    using Cons.prems a by auto
  have f1: "filter (\<lambda>(k, y). sub_id y = n) (map (Pair k) ys) = []"
    using old(1) by (induction ys) auto
  have f2: "filter (\<lambda>(k, y). sub_id y = n) (flat m) = []"
    using old(2) by (induction "flat m") (auto simp: filter_empty_conv)
  show ?case
  proof (cases "k = p")
    case True
    have "x \<notin> set ys" using old(1) assms(2) by auto
    then show ?thesis using a True f1 f2 assms(2) by (simp add: sadd_def)
  next
    case False
    then show ?thesis using a f1 Cons.IH [OF old(2)] by simp
  qed
qed

lemma filter_flat_mdelete:
  "filter P (flat m) = [] \<Longrightarrow> filter P (flat (mdelete m p)) = []"
  by (induction m) (auto simp: mdelete_def filter_empty_conv)

lemma filter_flat_unsubscribe:
  assumes "\<forall>(k, y) \<in> set (flat m). sub_id y \<noteq> n" and "sub_id x = n"
  shows "filter (\<lambda>(k, y). sub_id y = n)
           (flat (let m1 = mset m p (sadd (case map_of m p of None \<Rightarrow> [] | Some ys \<Rightarrow> ys) x)
                  in case map_of m1 p of
                       None \<Rightarrow> m1
                     | Some subs \<Rightarrow>
                         if sdelete subs x = [] then mdelete m1 p
                         else mset m1 p (sdelete subs x))) = []"
  using assms(1)
proof (induction m)
  case Nil
  then show ?case by (simp add: sadd_def sdelete_def mdelete_def)
next
  case (Cons a m)
  obtain k ys where a: "a = (k, ys)" by (cases a)
  have old: "\<forall>y \<in> set ys. sub_id y \<noteq> n" "\<forall>(k, y) \<in> set (flat m). sub_id y \<noteq> n"
    using Cons.prems a by auto
  have f1: "filter (\<lambda>(k, y). sub_id y = n) (map (Pair k) ys) = []"
    using old(1) by (induction ys) auto
  have f2: "filter (\<lambda>(k, y). sub_id y = n) (flat m) = []"
    using old(2) by (induction "flat m") (auto simp: filter_empty_conv)
  show ?case
  proof (cases "k = p")
    case True
    have nx: "x \<notin> set ys" using old(1) assms(2) by auto
    then have sd: "sdelete (ys @ [x]) x = ys" by (auto simp: sdelete_def filter_id_conv)
    show ?thesis
      using a True nx f1 f2 filter_flat_mdelete [of "\<lambda>(k, y). sub_id y = n" m p]
      by (simp add: sadd_def sd Let_def mdelete_def)
  next
    case False
    with Cons.IH [OF old(2)] a f1 show ?thesis
      by (auto simp: Let_def mdelete_def split: option.splits if_splits)
  qed
qed

lemma setState_pass:
  assumes valid: "isValidPath p"
    and top: "\<not> isUpdating s" "p \<notin> set (currentlyUpdating s)"
    and unbatched: "\<not> (batchingEnabled s \<and> 0 < batchDelayMs s)"
    and changed: "\<not> deepEquals (oldValueAt s p) (finalValueFor s p v c)"
    and returned: "snd (setState s p v c) = None"
  shows "\<not> isUpdating (fst (setState s p v c)) \<and>
         externalSubscribers (fst (setState s p v c)) = externalSubscribers s \<and>
         currentlyUpdating (fst (setState s p v c)) = sdelete (sadd (currentlyUpdating s) p) p \<and>
         batchingEnabled (fst (setState s p v c)) = batchingEnabled s \<and>
         batchDelayMs (fst (setState s p v c)) = batchDelayMs s \<and>
         (\<exists>E1 E2 E3.
           calls (fst (setState s p v c)) =
             calls s @ E1 @ E2 @ E3 @
               external_events p (finalValueFor s p v c) (oldValueAt s p) (subscriptionsInOrder s) \<and>
           internal_at p E1 \<and>
           list_all is_internal E2 \<and> grouped (parentPaths p) (map event_path E2) \<and>
           below p E3)"
proof -
  obtain s' where run: "setStateImmediate (setState_fuel 1) s p v c = (s', None)"
    using returned unfolding setState_top_immediate [OF valid top(2) unbatched]
    by (cases "setStateImmediate (setState_fuel 1) s p v c") auto
  obtain root where
    wrote: "writePath (Obj (state s)) (getPathParts p) (finalValueFor s p v c) = Inr root"
    using run changed
    by (cases "writePath (Obj (state s)) (getPathParts p) (finalValueFor s p v c)")
       (auto simp: setStateImmediate_unfold Let_def)
  have ne: "p \<noteq> []" using valid by (rule isValidPath_nonempty)
  from setStateImmediate_top [OF setState_fuel_quiet1 top(1) run changed wrote] ne
  show ?thesis
    unfolding setState_top_immediate [OF valid top(2) unbatched] run by auto
qed

lemma times_called_append [simp]:
  "times_called n (es @ fs) = times_called n es + times_called n fs"
  by (simp add: times_called_def)

lemma times_called_internal: "list_all is_internal es \<Longrightarrow> times_called n es = 0"
  by (induction es) (auto simp: times_called_def elim: is_internal.elims)

lemma internal_at_internal: "internal_at q es \<Longrightarrow> list_all is_internal es"
  by (simp add: internal_at_def list_all_iff)

lemma below_internal: "below q es \<Longrightarrow> list_all is_internal es"
  by (simp add: below_def list_all_iff)

lemma times_called_external:
  "times_called n (external_events cp nv ov subs) =
     length (filter (\<lambda>(sp, y). shouldNotify y sp cp) (filter (\<lambda>(k, y). sub_id y = n) subs))"
  by (induction subs) (auto simp: times_called_def external_events_def)

lemma subscribe_fields [simp]:
  "state (snd (subscribe s p cb h)) = state s"
  "middleware (snd (subscribe s p cb h)) = middleware s"
  "isUpdating (snd (subscribe s p cb h)) = isUpdating s"
  "calls (snd (subscribe s p cb h)) = calls s"
  "currentlyUpdating (snd (subscribe s p cb h)) = currentlyUpdating s"
  "currentTracking (snd (subscribe s p cb h)) = currentTracking s"
  "batchingEnabled (snd (subscribe s p cb h)) = batchingEnabled s"
  "batchDelayMs (snd (subscribe s p cb h)) = batchDelayMs s"
  "fst (subscribe s p cb h) = Subscription (nextSubscription s) cb h"
  "externalSubscribers (snd (subscribe s p cb h)) =
     mset (externalSubscribers s) p
       (sadd (case map_of (externalSubscribers s) p of None \<Rightarrow> [] | Some ys \<Rightarrow> ys)
          (Subscription (nextSubscription s) cb h))"
  by (simp_all add: subscribe_def Let_def)

lemma unsubscribe_fields [simp]:
  "state (unsubscribe s p x) = state s"
  "middleware (unsubscribe s p x) = middleware s"
  "isUpdating (unsubscribe s p x) = isUpdating s"
  "calls (unsubscribe s p x) = calls s"
  "currentlyUpdating (unsubscribe s p x) = currentlyUpdating s"
  "currentTracking (unsubscribe s p x) = currentTracking s"
  "batchingEnabled (unsubscribe s p x) = batchingEnabled s"
  "batchDelayMs (unsubscribe s p x) = batchDelayMs s"
  by (simp_all add: unsubscribe_def split: option.splits)

lemma unsubscribe_external:
  "externalSubscribers (unsubscribe s p x) =
     (case map_of (externalSubscribers s) p of
        None \<Rightarrow> externalSubscribers s
      | Some subs \<Rightarrow>
          if sdelete subs x = [] then mdelete (externalSubscribers s) p
          else mset (externalSubscribers s) p (sdelete subs x))"
  by (simp add: unsubscribe_def split: option.splits)

lemma oldValueAt_cong:
  "state s' = state s \<Longrightarrow> oldValueAt s' p = oldValueAt s p"
  by (simp add: oldValueAt_def getState_def warn_def Let_def split: option.splits)

lemma finalValueFor_cong:
  "state s' = state s \<Longrightarrow> middleware s' = middleware s \<Longrightarrow>
   finalValueFor s' p v c = finalValueFor s p v c"
  using oldValueAt_cong [of s' s p] by (simp add: finalValueFor_def)

lemma setState_no_calls:
  assumes top: "\<not> isUpdating s" and unbatched: "\<not> (batchingEnabled s \<and> 0 < batchDelayMs s)"
    and returned: "snd (setState s p v c) = None"
  shows "\<exists>es. calls (fst (setState s p v c)) =
               calls s @ es @
                 (if isValidPath p \<and> p \<notin> set (currentlyUpdating s) \<and>
                     \<not> deepEquals (oldValueAt s p) (finalValueFor s p v c)
                  then external_events p (finalValueFor s p v c) (oldValueAt s p)
                         (subscriptionsInOrder s)
                  else []) \<and> list_all is_internal es"
proof (cases "isValidPath p \<and> p \<notin> set (currentlyUpdating s)")
  case False
  then have "calls (fst (setState s p v c)) = calls s"
    by (auto simp: setState_def numeral_2_eq_2 setState_body_def hasCircularUpdate_def warn_def)
  then show ?thesis using False by auto
next
  case True
  show ?thesis
  proof (cases "deepEquals (oldValueAt s p) (finalValueFor s p v c)")
    case eq: True
    have "calls (fst (setState s p v c)) = calls s"
      using True eq unbatched
      by (simp add: setState_top_immediate setStateImmediate_unfold Let_def)
    then show ?thesis using eq by auto
  next
    case ne: False
    from setState_pass [OF _ top _ unbatched ne returned] True obtain E1 E2 E3 where
      c: "calls (fst (setState s p v c)) =
             calls s @ E1 @ E2 @ E3 @
               external_events p (finalValueFor s p v c) (oldValueAt s p) (subscriptionsInOrder s)"
      and i: "internal_at p E1" "list_all is_internal E2" "below p E3" by auto
    have "list_all is_internal (E1 @ E2 @ E3)"
      using i internal_at_internal below_internal by auto
    with c True ne show ?thesis
      by (intro exI [of _ "E1 @ E2 @ E3"]) simp
  qed
qed

lemma fresh_identities_flat:
  "fresh_identities s \<Longrightarrow>
   \<forall>(k, y) \<in> set (flat (externalSubscribers s)). sub_id y \<noteq> nextSubscription s"
  by (auto simp: fresh_identities_def subscriptionsInOrder_flat list_all_iff)

lemma shouldNotify_iff:
  "shouldNotify (Subscription n cb h) p q \<longleftrightarrow> q = p \<or> (h \<and> startsWith q (p @ ''.''))"
  by (auto simp: shouldNotify_def)

text \<open>
  Subscribe \<open>cb\<close> on \<open>p\<close> in a store that is not in the middle of a pass. A non-batched
  \<open>setState(q, v)\<close> that changes the value and returns calls \<open>cb\<close> exactly once, before it
  returns, when \<open>q\<close> is \<open>p\<close>, and also when the subscription is hierarchical and \<open>q\<close> starts with
  \<open>p\<close> and a dot (a strict descendant of \<open>p\<close>); otherwise, in particular for an exact
  subscription and \<open>q\<close> other than \<open>p\<close>, it does not call \<open>cb\<close>. After the unsubscribe
  function was called, a \<open>setState\<close> that returns does not call \<open>cb\<close> again.
\<close>

lemma subscribe_then_set:
  assumes fresh: "fresh_identities s"
    and top: "\<not> isUpdating s"
    and unbatched: "\<not> (batchingEnabled s \<and> 0 < batchDelayMs s)"
    and subscribed: "subscribe s p cb h = (x, s1)"
    and valid: "isValidPath q" and free: "q \<notin> set (currentlyUpdating s)"
    and changed: "\<not> deepEquals (oldValueAt s q) (finalValueFor s q v c)"
    and first_set: "setState s1 q v c = (s2, None)"
    and second_set: "setState (unsubscribe s2 p x) q2 v2 c2 = (s3, None)"
  shows "times_called (sub_id x) (drop (length (calls s1)) (calls s2)) =
           (if q = p \<or> (h \<and> startsWith q (p @ ''.'')) then 1 else 0) \<and>
         times_called (sub_id x) (drop (length (calls s2)) (calls s3)) = 0"
proof -
  define n where "n = nextSubscription s"
  have x: "x = Subscription n cb h" and s1: "s1 = snd (subscribe s p cb h)"
    using subscribed by (auto simp: subscribe_def Let_def n_def)
  have idx: "sub_id x = n" by (simp add: x)
  have old: "\<forall>(k, y) \<in> set (flat (externalSubscribers s)). sub_id y \<noteq> n"
    using fresh_identities_flat [OF fresh] by (simp add: n_def)
  have E1: "externalSubscribers s1 =
              mset (externalSubscribers s) p
                (sadd (case map_of (externalSubscribers s) p of None \<Rightarrow> [] | Some ys \<Rightarrow> ys) x)"
    by (simp add: s1 x n_def)
  have top1: "\<not> isUpdating s1" "q \<notin> set (currentlyUpdating s1)"
    "\<not> (batchingEnabled s1 \<and> 0 < batchDelayMs s1)"
    using top free unbatched by (simp_all add: s1)
  have ov: "oldValueAt s1 q = oldValueAt s q" "finalValueFor s1 q v c = finalValueFor s q v c"
    using oldValueAt_cong [of s1 s q] finalValueFor_cong [of s1 s q v c]
    by (simp_all add: s1)
  have changed1: "\<not> deepEquals (oldValueAt s1 q) (finalValueFor s1 q v c)"
    using changed by (simp add: ov)
  have r1: "snd (setState s1 q v c) = None" and s2: "s2 = fst (setState s1 q v c)"
    using first_set by simp_all
  from setState_no_calls [OF top1(1) top1(3) r1] valid top1(2) changed1 obtain es where
    c2: "calls s2 = calls s1 @ es @
           external_events q (finalValueFor s1 q v c) (oldValueAt s1 q) (subscriptionsInOrder s1)"
    and es: "list_all is_internal es" by (auto simp: s2)
  have f1: "filter (\<lambda>(k, y). sub_id y = n) (subscriptionsInOrder s1) = [(p, x)]"
    unfolding subscriptionsInOrder_flat E1 using filter_flat_subscribe [OF old idx] .
  have A: "times_called (sub_id x) (drop (length (calls s1)) (calls s2)) =
           (if q = p \<or> (h \<and> startsWith q (p @ ''.'')) then 1 else 0)"
    using times_called_internal [OF es, of n] shouldNotify_iff [of n cb h p q]
    by (simp add: c2 idx times_called_external f1 x)
  from setState_pass [OF valid top1(1,2) top1(3) changed1 r1]
  have p2: "\<not> isUpdating s2" "externalSubscribers s2 = externalSubscribers s1"
    "batchingEnabled s2 = batchingEnabled s1" "batchDelayMs s2 = batchDelayMs s1"
    by (simp_all add: s2)
  define s2' where "s2' = unsubscribe s2 p x"
  have top3: "\<not> isUpdating s2'" "\<not> (batchingEnabled s2' \<and> 0 < batchDelayMs s2')"
    using p2 top1 by (simp_all add: s2'_def)
  have r3: "snd (setState s2' q2 v2 c2) = None" and s3: "s3 = fst (setState s2' q2 v2 c2)"
    using second_set by (simp_all add: s2'_def)
  have f3: "filter (\<lambda>(k, y). sub_id y = n) (subscriptionsInOrder s2') = []"
    unfolding subscriptionsInOrder_flat s2'_def unsubscribe_external p2(2) E1
    using filter_flat_unsubscribe [OF old idx, of p] by (simp add: Let_def)
  from setState_no_calls [OF top3 r3] obtain es' where
    c3: "calls s3 = calls s2' @ es' @
           (if isValidPath q2 \<and> q2 \<notin> set (currentlyUpdating s2') \<and>
               \<not> deepEquals (oldValueAt s2' q2) (finalValueFor s2' q2 v2 c2)
            then external_events q2 (finalValueFor s2' q2 v2 c2) (oldValueAt s2' q2)
                   (subscriptionsInOrder s2')
            else [])"
    and es': "list_all is_internal es'" by (auto simp: s3)
  have cs: "calls s2' = calls s2" by (simp add: s2'_def)
  have B: "times_called (sub_id x) (drop (length (calls s2)) (calls s3)) = 0"
    using times_called_internal [OF es', of n]
    by (simp add: c3 cs idx times_called_external f3) (simp add: times_called_def)
  from A B show ?thesis by simp
qed

lemma subscribe_then_set_witness:
  "fresh_identities store_with_watchers \<and> \<not> isUpdating store_with_watchers \<and>
   \<not> (batchingEnabled store_with_watchers \<and> 0 < batchDelayMs store_with_watchers) \<and>
   isValidPath ''a.b'' \<and> ''a.b'' \<notin> set (currentlyUpdating store_with_watchers) \<and>
   \<not> deepEquals (oldValueAt store_with_watchers ''a.b'')
        (finalValueFor store_with_watchers ''a.b'' (Num 1) (Obj [])) \<and>
   snd (setState (snd (subscribe store_with_watchers ''a'' (Callback 20 []) True))
          ''a.b'' (Num 1) (Obj [])) = None \<and>
   snd (setState
          (unsubscribe
             (fst (setState (snd (subscribe store_with_watchers ''a'' (Callback 20 []) True))
                     ''a.b'' (Num 1) (Obj [])))
             ''a'' (fst (subscribe store_with_watchers ''a'' (Callback 20 []) True)))
          ''a.b'' (Num 2) (Obj [])) = None \<and>
   sub_id (fst (subscribe store_with_watchers ''a'' (Callback 20 []) True)) = 2 \<and>
   times_called 2
     (drop (length (calls (snd (subscribe store_with_watchers ''a'' (Callback 20 []) True))))
        (calls (fst (setState (snd (subscribe store_with_watchers ''a'' (Callback 20 []) True))
                       ''a.b'' (Num 1) (Obj []))))) = 1 \<and>
   times_called 2
     (drop (length (calls (fst (setState
                     (snd (subscribe store_with_watchers ''a'' (Callback 20 []) True))
                     ''a.b'' (Num 1) (Obj [])))))
        (calls (fst (setState
                 (unsubscribe
                    (fst (setState (snd (subscribe store_with_watchers ''a'' (Callback 20 []) True))
                            ''a.b'' (Num 1) (Obj [])))
                    ''a'' (fst (subscribe store_with_watchers ''a'' (Callback 20 []) True)))
                 ''a.b'' (Num 2) (Obj []))))) = 0"
proof -
  define x where "x = fst (subscribe store_with_watchers ''a'' (Callback 20 []) True)"
  define s1 where "s1 = snd (subscribe store_with_watchers ''a'' (Callback 20 []) True)"
  define s2 where "s2 = fst (setState s1 ''a.b'' (Num 1) (Obj []))"
  define s3 where "s3 = fst (setState (unsubscribe s2 ''a'' x) ''a.b'' (Num 2) (Obj []))"
  have h1: "fresh_identities store_with_watchers" by code_simp
  have h2: "\<not> isUpdating store_with_watchers" by code_simp
  have h3: "\<not> (batchingEnabled store_with_watchers \<and> 0 < batchDelayMs store_with_watchers)"
    by code_simp
  have h4: "subscribe store_with_watchers ''a'' (Callback 20 []) True = (x, s1)"
    by (simp add: x_def s1_def prod_eq_iff)
  have h5: "isValidPath ''a.b''" by code_simp
  have h6: "''a.b'' \<notin> set (currentlyUpdating store_with_watchers)" by code_simp
  have h7: "\<not> deepEquals (oldValueAt store_with_watchers ''a.b'')
        (finalValueFor store_with_watchers ''a.b'' (Num 1) (Obj []))" by code_simp
  have r1: "snd (setState s1 ''a.b'' (Num 1) (Obj [])) = None"
    unfolding s1_def by code_simp
  have r2: "snd (setState (unsubscribe s2 ''a'' x) ''a.b'' (Num 2) (Obj [])) = None"
    unfolding s2_def s1_def x_def by code_simp
  have h8: "setState s1 ''a.b'' (Num 1) (Obj []) = (s2, None)"
    using r1 by (simp add: s2_def prod_eq_iff)
  have h9: "setState (unsubscribe s2 ''a'' x) ''a.b'' (Num 2) (Obj []) = (s3, None)"
    using r2 by (simp add: s3_def prod_eq_iff)
  have i: "sub_id x = 2" unfolding x_def by code_simp
  from subscribe_then_set [OF h1 h2 h3 h4 h5 h6 h7 h8 h9]
  have "times_called 2 (drop (length (calls s1)) (calls s2)) = 1 \<and>
        times_called 2 (drop (length (calls s2)) (calls s3)) = 0"
    by (simp add: i startsWith_def)
  then show ?thesis
    using h1 h2 h3 h5 h6 h7 r1 r2 i unfolding s3_def s2_def s1_def x_def by simp
qed

definition store_with_thrower :: store where
  \<comment> \<open>a fresh store with a reactive callback on \<open>a\<close> that throws, and then
      \<open>subscribe("a", cb)\<close>\<close>
  "store_with_thrower =
     snd (subscribe (subscribeInternal (newStateManager [] []) ''a'' (Callback 7 [ThrowError ''boom'']))
            ''a'' (Callback 0 []) True)"

text \<open>
  C6. On a store with a reactive callback on \<open>a\<close> that throws, \<open>subscribe("a", cb)\<close> followed by
  \<open>setState("a", 1)\<close> writes the value and never calls \<open>cb\<close>: the \<open>catch\<close> block of
  \<open>_triggerPathSubscribers\<close> reads \<open>oldTracking\<close>, which is not in scope there, so a
  ReferenceError leaves \<open>setState\<close> before \<open>_notifyExternalSubscribers\<close> runs. \<open>isUpdating\<close> and the
  path stay set: a later \<open>setState("a", 2)\<close> is dropped and a \<open>setState\<close> on another path notifies
  nobody. On a fresh store, \<open>subscribe("a", cb)\<close> followed by \<open>setState(".a.b", 1)\<close> writes \<open>a.b\<close>
  and does not call \<open>cb\<close>: the changed path is compared as the string it was given.
\<close>

theorem subscribe_then_set_aborted:
  "subscriptionsInOrder store_with_thrower = [(''a'', Subscription 0 (Callback 0 []) True)] \<and>
   \<not> isUpdating store_with_thrower \<and>
   snd (setState store_with_thrower ''a'' (Num 1) (Obj [])) =
     Some (Threw (ReferenceError ''oldTracking is not defined'')) \<and>
   state (fst (setState store_with_thrower ''a'' (Num 1) (Obj []))) = [(''a'', Num 1)] \<and>
   calls (fst (setState store_with_thrower ''a'' (Num 1) (Obj []))) = [InternalCall 7 ''a''] \<and>
   times_called 0 (calls (fst (setState store_with_thrower ''a'' (Num 1) (Obj [])))) = 0 \<and>
   isUpdating (fst (setState store_with_thrower ''a'' (Num 1) (Obj []))) \<and>
   currentlyUpdating (fst (setState store_with_thrower ''a'' (Num 1) (Obj []))) = [''a''] \<and>
   state (fst (setState (fst (setState store_with_thrower ''a'' (Num 1) (Obj []))) ''a'' (Num 2) (Obj [])))
     = [(''a'', Num 1)] \<and>
   calls (fst (setState (fst (setState store_with_thrower ''a'' (Num 1) (Obj []))) ''b'' (Num 2) (Obj [])))
     = [InternalCall 7 ''a''] \<and>
   isValidPath ''.a.b'' \<and>
   state (fst (setState (snd (subscribe (newStateManager [] []) ''a'' (Callback 0 []) True))
                 ''.a.b'' (Num 1) (Obj []))) = [(''a'', Obj [(''b'', Num 1)])] \<and>
   calls (fst (setState (snd (subscribe (newStateManager [] []) ''a'' (Callback 0 []) True))
                 ''.a.b'' (Num 1) (Obj []))) = []"
  by code_simp

section \<open>Batched updates\<close>













section \<open>The string renderer: values\<close>

text \<open>
  The values a view tree is made of, as \<open>StringRenderer\<close> sees them. An object is the list
  of its own enumerable properties in the order \<open>Object.keys\<close> gives them, with distinct
  keys; an array is the list of its elements. A function is what a call of it does, with
  no arguments that matter: it returns a value or throws an error with a message. A
  promise is what becomes of it: fulfilled with a value, rejected with an error that has a
  message, or never settled. The context object, which the renderer only hands on to the
  functions it calls, and the lines written to the console are left out.
\<close>

datatype 'a promise = Fulfilled 'a | Rejected string | Pending

datatype 'a outcome = Returns 'a | Throws string

datatype view =
    VUndefined
  | VNull
  | VBool bool
  | VNum int
  | VStr string
  | VArr "view list"
  | VObj "(string \<times> view) list"
  | VFun "view outcome"
  | VPromise "view promise"

datatype halt =
    Raise string \<comment> \<open>an exception, with the \<open>message\<close> of the error\<close>
  | NestingFuel \<comment> \<open>the model ran out of fuel for nested calls of \<open>render\<close>\<close>
  | HopFuel \<comment> \<open>the model ran out of fuel for promise callbacks that call \<open>render\<close>\<close>
  | Unmodelled \<comment> \<open>the code leaves what the model describes\<close>

datatype out = Text string | Promise "string promise"

definition dq :: char where
  "dq = CHR 0x22"

definition to_lower :: "char \<Rightarrow> char" where
  "to_lower c =
     (let n = (of_char c :: nat)
      in if (65 \<le> n \<and> n \<le> 90) \<or> (192 \<le> n \<and> n \<le> 222 \<and> n \<noteq> 215) then char_of (n + 32)
         else c)"

definition toLowerCase :: "string \<Rightarrow> string" where
  "toLowerCase s = map to_lower s"

definition is_upper :: "char \<Rightarrow> bool" where
  "is_upper c = (c \<in> set ''ABCDEFGHIJKLMNOPQRSTUVWXYZ'')"

definition is_letter :: "char \<Rightarrow> bool" where
  "is_letter c = (is_upper c \<or> c \<in> set ''abcdefghijklmnopqrstuvwxyz'')"

definition is_alnum :: "char \<Rightarrow> bool" where
  "is_alnum c = (is_letter c \<or> is_digit c)"

fun truthy :: "view \<Rightarrow> bool" where
  "truthy VUndefined = False"
| "truthy VNull = False"
| "truthy (VBool b) = b"
| "truthy (VNum n) = (n \<noteq> 0)"
| "truthy (VStr t) = (t \<noteq> [])"
| "truthy (VArr xs) = True"
| "truthy (VObj kvs) = True"
| "truthy (VFun f) = True"
| "truthy (VPromise p) = True"

fun nullish :: "view \<Rightarrow> bool" where
  "nullish VUndefined = True"
| "nullish VNull = True"
| "nullish (VBool b) = False"
| "nullish (VNum n) = False"
| "nullish (VStr t) = False"
| "nullish (VArr xs) = False"
| "nullish (VObj kvs) = False"
| "nullish (VFun f) = False"
| "nullish (VPromise p) = False"

fun is_function :: "view \<Rightarrow> bool" where
  \<comment> \<open>\<open>typeof v === 'function'\<close>\<close>
  "is_function (VFun f) = True"
| "is_function VUndefined = False"
| "is_function VNull = False"
| "is_function (VBool b) = False"
| "is_function (VNum n) = False"
| "is_function (VStr t) = False"
| "is_function (VArr xs) = False"
| "is_function (VObj kvs) = False"
| "is_function (VPromise p) = False"

fun is_object :: "view \<Rightarrow> bool" where
  \<comment> \<open>\<open>typeof v === 'object'\<close>\<close>
  "is_object VNull = True"
| "is_object (VArr xs) = True"
| "is_object (VObj kvs) = True"
| "is_object (VPromise p) = True"
| "is_object VUndefined = False"
| "is_object (VBool b) = False"
| "is_object (VNum n) = False"
| "is_object (VStr t) = False"
| "is_object (VFun f) = False"

fun keys_of :: "view \<Rightarrow> string list" where
  \<comment> \<open>\<open>Object.keys(v)\<close>\<close>
  "keys_of (VObj kvs) = map fst kvs"
| "keys_of (VArr xs) = map show_nat [0..<length xs]"
| "keys_of (VStr t) = map show_nat [0..<length t]"
| "keys_of VUndefined = []"
| "keys_of VNull = []"
| "keys_of (VBool b) = []"
| "keys_of (VNum n) = []"
| "keys_of (VFun f) = []"
| "keys_of (VPromise p) = []"

fun field :: "view \<Rightarrow> string \<Rightarrow> view" where
  \<comment> \<open>\<open>v[k]\<close> for the names the renderer reads: own keys, \<open>text\<close>, \<open>children\<close>, \<open>style\<close>,
      \<open>render\<close>\<close>
  "field (VObj kvs) k = (case map_of kvs k of Some v \<Rightarrow> v | None \<Rightarrow> VUndefined)"
| "field (VArr xs) k =
     (if is_array_index k \<and> parse_nat k < length xs then xs ! parse_nat k else VUndefined)"
| "field (VStr t) k =
     (if is_array_index k \<and> parse_nat k < length t then VStr [t ! parse_nat k] else VUndefined)"
| "field VUndefined k = VUndefined"
| "field VNull k = VUndefined"
| "field (VBool b) k = VUndefined"
| "field (VNum n) k = VUndefined"
| "field (VFun f) k = VUndefined"
| "field (VPromise p) k = VUndefined"

datatype then_kind = NotThenable | IsPromise "view promise" | OtherThenable

fun thenable :: "view \<Rightarrow> then_kind" where
  \<comment> \<open>\<open>v && typeof v.then === 'function'\<close>; an object with a \<open>then\<close> method of its own is a
      thenable whose behaviour the model does not describe\<close>
  "thenable (VPromise p) = IsPromise p"
| "thenable (VObj kvs) =
     (case map_of kvs ''then'' of Some (VFun f) \<Rightarrow> OtherThenable | _ \<Rightarrow> NotThenable)"
| "thenable VUndefined = NotThenable"
| "thenable VNull = NotThenable"
| "thenable (VBool b) = NotThenable"
| "thenable (VNum n) = NotThenable"
| "thenable (VStr t) = NotThenable"
| "thenable (VArr xs) = NotThenable"
| "thenable (VFun f) = NotThenable"

fun js_String :: "view \<Rightarrow> string option" where
  \<comment> \<open>\<open>String(v)\<close>; \<open>None\<close> for the source text of a function and for an object with a
      \<open>toString\<close> or \<open>valueOf\<close> of its own\<close>
  "js_String VUndefined = Some ''undefined''"
| "js_String VNull = Some ''null''"
| "js_String (VBool b) = Some (if b then ''true'' else ''false'')"
| "js_String (VNum n) = Some (show_int n)"
| "js_String (VStr t) = Some t"
| "js_String (VArr xs) =
     (let parts = map (\<lambda>x. if nullish x then Some [] else js_String x) xs
      in if list_all (\<lambda>p. p \<noteq> None) parts then Some (join '','' (map the parts)) else None)"
| "js_String (VObj kvs) =
     (if ''toString'' \<in> set (map fst kvs) \<or> ''valueOf'' \<in> set (map fst kvs) then None
      else Some ''[object Object]'')"
| "js_String (VFun f) = None"
| "js_String (VPromise p) = Some ''[object Promise]''"

definition js_parseInt :: "string \<Rightarrow> int option" where
  \<comment> \<open>\<open>parseInt(t, 10)\<close>; \<open>None\<close> is \<open>NaN\<close>\<close>
  "js_parseInt t =
     (let u = dropWhile is_ws t;
          negative = (u \<noteq> [] \<and> hd u = CHR ''-'');
          w = (if u \<noteq> [] \<and> (hd u = CHR ''-'' \<or> hd u = CHR ''+'') then tl u else u);
          ds = takeWhile is_digit w
      in if ds = [] then None
         else Some (if negative then - int (parse_nat ds) else int (parse_nat ds)))"

section \<open>The string renderer: escaping and attributes\<close>

definition replaceAll :: "char \<Rightarrow> string \<Rightarrow> string \<Rightarrow> string" where
  \<comment> \<open>\<open>s.replace(/c/g, r)\<close> for a replacement \<open>r\<close> without \<open>$\<close>\<close>
  "replaceAll c r s = concat (map (\<lambda>x. if x = c then r else [x]) s)"

definition escape_html :: "string \<Rightarrow> string" where
  \<comment> \<open>the chain of replacements of \<open>_escapeHtml\<close>\<close>
  "escape_html s =
     replaceAll (CHR 0x27) ''&#39;''
       (replaceAll dq ''&quot;''
          (replaceAll CHR ''>'' ''&gt;''
             (replaceAll CHR ''<'' ''&lt;''
                (replaceAll CHR ''&'' ''&amp;'' s))))"

definition escapeHtml :: "view \<Rightarrow> string option" where
  "escapeHtml str = (if nullish str then Some [] else map_option escape_html (js_String str))"

definition escape_attribute :: "string \<Rightarrow> string" where
  \<comment> \<open>the chain of replacements of \<open>_escapeAttributeValue\<close>\<close>
  "escape_attribute s =
     replaceAll CHR ''>'' ''&gt;''
       (replaceAll CHR ''<'' ''&lt;''
          (replaceAll (CHR 0x27) ''&#39;''
             (replaceAll dq ''&quot;''
                (replaceAll CHR ''&'' ''&amp;'' s))))"

definition escapeAttributeValue :: "view \<Rightarrow> string option" where
  "escapeAttributeValue v =
     (if nullish v then Some [] else map_option escape_attribute (js_String v))"

definition camelToKebab :: "string \<Rightarrow> string" where
  "camelToKebab s = concat (map (\<lambda>c. if is_upper c then [CHR ''-'', to_lower c] else [c]) s)"

definition booleanAttributes :: "string list" where
  "booleanAttributes =
     [''autofocus'', ''autoplay'', ''async'', ''checked'', ''controls'', ''defer'',
      ''disabled'', ''hidden'', ''loop'', ''multiple'', ''muted'', ''open'',
      ''readonly'', ''required'', ''reversed'', ''selected'', ''default'']"

definition skipAttributes :: "string list" where
  "skipAttributes = [''children'', ''text'', ''style'', ''key'']"

definition eventHandlerPattern :: "string \<Rightarrow> bool" where
  \<comment> \<open>\<open>/^on[a-z]/i.test(key)\<close>\<close>
  "eventHandlerPattern key =
     (case key of
        a # b # c # rest \<Rightarrow>
          (a = CHR ''o'' \<or> a = CHR ''O'') \<and> (b = CHR ''n'' \<or> b = CHR ''N'') \<and> is_letter c
      | _ \<Rightarrow> False)"

definition shouldSkipAttribute :: "string \<Rightarrow> bool" where
  "shouldSkipAttribute key =
     (key \<in> set skipAttributes \<or> eventHandlerPattern key \<or> key = ''style'')"

definition isVoidElement :: "string \<Rightarrow> bool" where
  "isVoidElement tagName =
     (toLowerCase tagName \<in>
        set [''area'', ''base'', ''br'', ''col'', ''embed'', ''hr'', ''img'',
             ''input'', ''link'', ''meta'', ''param'', ''source'', ''track'', ''wbr''])"

definition evaluateFunction :: "view \<Rightarrow> view" where
  \<comment> \<open>\<open>_evaluateFunction\<close>: the value itself when it is no function, what the call returns,
      and the empty string when the call throws\<close>
  "evaluateFunction fn =
     (case fn of
        VFun (Returns result) \<Rightarrow> result
      | VFun (Throws m) \<Rightarrow> VStr []
      | _ \<Rightarrow> fn)"

definition class_names :: "string list \<Rightarrow> string" where
  \<comment> \<open>\<open>.map(cls => cls.trim()).filter(cls => cls.length > 0).join(' ')\<close>\<close>
  "class_names xs = join '' '' (filter (\<lambda>cls. cls \<noteq> []) (map trim xs))"

definition processClassName :: "view \<Rightarrow> string" where
  "processClassName v =
     (case v of
        VStr t \<Rightarrow> trim t
      | VArr xs \<Rightarrow> class_names (concat (map (\<lambda>cls. case cls of VStr t \<Rightarrow> (if t \<noteq> [] then [t] else []) | _ \<Rightarrow> []) xs))
      | VObj kvs \<Rightarrow> class_names (map fst (filter (\<lambda>(cls, condition). truthy condition \<and> cls \<noteq> []) kvs))
      | VPromise p \<Rightarrow> []
      | _ \<Rightarrow> [])"

record renderer =
  juris :: "(string \<times> (view \<Rightarrow> view outcome)) list option"
  renderDepth :: int
  maxRenderDepth :: int
  specialAttributeHandlers :: "string list"
  asyncDetected :: bool

definition StringRenderer :: "(string \<times> (view \<Rightarrow> view outcome)) list option \<Rightarrow> renderer" where
  \<comment> \<open>the constructor; the argument is \<open>juris.componentManager.components\<close>, or \<open>None\<close> for
      \<open>juris = null\<close>\<close>
  "StringRenderer j =
     \<lparr>juris = j, renderDepth = 0, maxRenderDepth = 100, specialAttributeHandlers = [],
      asyncDetected = False\<rparr>"

definition has_component :: "renderer \<Rightarrow> string \<Rightarrow> bool" where
  \<comment> \<open>\<open>this.juris && this.juris.componentManager && ...components.has(tagName)\<close>\<close>
  "has_component r tagName =
     (case juris r of None \<Rightarrow> False | Some cs \<Rightarrow> map_of cs tagName \<noteq> None)"

definition attribute :: "string \<Rightarrow> view \<Rightarrow> halt + string" where
  \<comment> \<open>the template \<open>` ${name}="${this._escapeAttributeValue(value)}"`\<close>\<close>
  "attribute name v =
     (case escapeAttributeValue v of
        None \<Rightarrow> Inl Unmodelled
      | Some e \<Rightarrow> Inr ('' '' @ name @ ''='' @ [dq] @ e @ [dq]))"

definition renderAttribute :: "renderer \<Rightarrow> string \<Rightarrow> view \<Rightarrow> halt + string" where
  \<comment> \<open>a name with a special handler reaches the call \<open>handler(element, value)\<close>, where
      \<open>element\<close> is bound nowhere\<close>
  "renderAttribute r name v =
     (if nullish v then Inr []
      else let lowerName = toLowerCase name in
        if lowerName \<in> set (specialAttributeHandlers r) then Inl (Raise ''element is not defined'')
        else if lowerName \<in> set booleanAttributes then
          (if v = VBool True \<or> v = VStr [] \<or> v = VStr name \<or> v = VStr lowerName
           then Inr ('' '' @ name)
           else if v = VBool False then Inr []
           else attribute name v)
        else if startsWith lowerName ''data-'' \<or> startsWith lowerName ''aria-'' then attribute name v
        else if lowerName = ''class'' \<or> lowerName = ''classname'' then
          (let className = processClassName v
           in if className \<noteq> [] then attribute ''class'' (VStr className) else Inr [])
        else if lowerName = ''for'' \<or> lowerName = ''htmlfor'' then attribute ''for'' v
        else if lowerName = ''tabindex'' then
          (case js_String v of
             None \<Rightarrow> Inl Unmodelled
           | Some t \<Rightarrow>
               (case js_parseInt t of
                  None \<Rightarrow> Inr []
                | Some tabIndex \<Rightarrow> Inr ('' tabindex='' @ [dq] @ show_int tabIndex @ [dq])))
        else if lowerName \<in>
            set [''value'', ''type'', ''id'', ''name'', ''placeholder'', ''title'', ''alt'', ''src'',
                 ''href'', ''target'', ''rel'', ''role'', ''contenteditable'', ''draggable'',
                 ''spellcheck'']
        then attribute lowerName v
        else attribute name v)"

section \<open>The string renderer: promises\<close>

text \<open>
  A promise is modelled by its settlement, so \<open>p.then(k)\<close> is the settlement of the
  promise it returns: \<open>k\<close> applied to the value when \<open>p\<close> is fulfilled, with the promise
  \<open>k\<close> returns adopted and an exception of \<open>k\<close> as the rejection. \<open>Promise.all\<close> rejects with
  the first rejection in time; the model decides it when at most one promise is
  rejected.
\<close>

definition andThen :: "'a promise \<Rightarrow> ('a \<Rightarrow> halt + out) \<Rightarrow> halt + out" where
  "andThen p k =
     (case p of
        Fulfilled v \<Rightarrow>
          (case k v of
             Inl (Raise m) \<Rightarrow> Inr (Promise (Rejected m))
           | Inl a \<Rightarrow> Inl a
           | Inr (Text t) \<Rightarrow> Inr (Promise (Fulfilled t))
           | Inr (Promise q) \<Rightarrow> Inr (Promise q))
      | Rejected m \<Rightarrow> Inr (Promise (Rejected m))
      | Pending \<Rightarrow> Inr (Promise Pending))"

fun rejections :: "'a promise list \<Rightarrow> string list" where
  "rejections [] = []"
| "rejections (Rejected m # ps) = m # rejections ps"
| "rejections (Fulfilled v # ps) = rejections ps"
| "rejections (Pending # ps) = rejections ps"

fun fulfilments :: "'a promise list \<Rightarrow> 'a list option" where
  \<comment> \<open>the values, when every promise is fulfilled\<close>
  "fulfilments [] = Some []"
| "fulfilments (Fulfilled v # ps) = map_option ((#) v) (fulfilments ps)"
| "fulfilments (Rejected m # ps) = None"
| "fulfilments (Pending # ps) = None"

definition promise_all :: "'a promise list \<Rightarrow> halt + 'a list promise" where
  "promise_all ps =
     (case rejections ps of
        [] \<Rightarrow> (case fulfilments ps of Some vs \<Rightarrow> Inr (Fulfilled vs) | None \<Rightarrow> Inr Pending)
      | [m] \<Rightarrow> Inr (Rejected m)
      | m # m' # ms \<Rightarrow> Inl Unmodelled)"

fun as_promise :: "out \<Rightarrow> string promise" where
  \<comment> \<open>\<open>result && typeof result.then === 'function' ? result : Promise.resolve(result)\<close>\<close>
  "as_promise (Text t) = Fulfilled t"
| "as_promise (Promise p) = p"

fun is_promise :: "out \<Rightarrow> bool" where
  "is_promise (Text t) = False"
| "is_promise (Promise p) = True"

fun text_of :: "out \<Rightarrow> string" where
  "text_of (Text t) = t"
| "text_of (Promise p) = ''[object Promise]''"

definition join_results :: "out list \<Rightarrow> halt + out" where
  \<comment> \<open>\<open>results.join('')\<close>, after \<open>Promise.all\<close> when a result is a promise\<close>
  "join_results results =
     (if list_ex is_promise results then
        (case promise_all (map as_promise results) of
           Inl a \<Rightarrow> Inl a
         | Inr p \<Rightarrow> andThen p (\<lambda>resolvedResults. Inr (Text (concat resolvedResults))))
      else Inr (Text (concat (map text_of results))))"

section \<open>The string renderer: attributes and style of an element\<close>

fun processAttributes_each ::
  "renderer \<Rightarrow> view \<Rightarrow> string list \<Rightarrow> string \<Rightarrow> (string \<times> view promise) list \<Rightarrow>
   halt + string \<times> (string \<times> view promise) list" where
  \<comment> \<open>the \<open>forEach\<close> of \<open>_processAttributes\<close>, with \<open>attributesHtml\<close> and \<open>attributePromises\<close>;
      what a special handler returns is not modelled\<close>
  "processAttributes_each r props [] attributesHtml attributePromises =
     Inr (attributesHtml, attributePromises)"
| "processAttributes_each r props (key # keys) attributesHtml attributePromises =
     (if key \<in> set (specialAttributeHandlers r) then Inl Unmodelled
      else if shouldSkipAttribute key then
        processAttributes_each r props keys attributesHtml attributePromises
      else
        (case (if is_function (field props key)
               then thenable (evaluateFunction (field props key)) else NotThenable) of
           IsPromise p \<Rightarrow>
             processAttributes_each r props keys attributesHtml (attributePromises @ [(key, p)])
         | OtherThenable \<Rightarrow> Inl Unmodelled
         | NotThenable \<Rightarrow>
             (case renderAttribute r key (evaluateFunction (field props key)) of
                Inl a \<Rightarrow> Inl a
              | Inr html \<Rightarrow>
                  processAttributes_each r props keys (attributesHtml @ html) attributePromises)))"

fun renderAttributes :: "renderer \<Rightarrow> (string \<times> view) list \<Rightarrow> string \<Rightarrow> halt + string" where
  \<comment> \<open>the \<open>forEach\<close> over the resolved attributes\<close>
  "renderAttributes r [] html = Inr html"
| "renderAttributes r ((key, v) # rest) html =
     (case renderAttribute r key v of
        Inl a \<Rightarrow> Inl a
      | Inr h \<Rightarrow> renderAttributes r rest (html @ h))"

definition processAttributes :: "renderer \<Rightarrow> view \<Rightarrow> halt + out" where
  "processAttributes r props =
     (case processAttributes_each r props (keys_of props) [] [] of
        Inl a \<Rightarrow> Inl a
      | Inr (attributesHtml, []) \<Rightarrow> Inr (Text attributesHtml)
      | Inr (attributesHtml, ap # aps) \<Rightarrow>
          (case promise_all (map snd (ap # aps)) of
             Inl a \<Rightarrow> Inl a
           | Inr p \<Rightarrow>
               andThen p (\<lambda>vs.
                 map_sum id Text (renderAttributes r (zip (map fst (ap # aps)) vs) attributesHtml))))"

fun processStyle_each ::
  "(string \<times> view) list \<Rightarrow> string list \<Rightarrow> (string \<times> view promise) list \<Rightarrow>
   halt + string list \<times> (string \<times> view promise) list" where
  \<comment> \<open>the \<open>forEach\<close> of \<open>_processStyleObject\<close>, with \<open>syncRules\<close> and \<open>stylePromises\<close>\<close>
  "processStyle_each [] syncRules stylePromises = Inr (syncRules, stylePromises)"
| "processStyle_each ((property, v) # rest) syncRules stylePromises =
     (case thenable (evaluateFunction v) of
        IsPromise p \<Rightarrow> processStyle_each rest syncRules (stylePromises @ [(property, p)])
      | OtherThenable \<Rightarrow> Inl Unmodelled
      | NotThenable \<Rightarrow>
          (if nullish (evaluateFunction v) then processStyle_each rest syncRules stylePromises
           else
             (case js_String (evaluateFunction v) of
                None \<Rightarrow> Inl Unmodelled
              | Some cssValue \<Rightarrow>
                  processStyle_each rest (syncRules @ [camelToKebab property @ '': '' @ cssValue])
                    stylePromises)))"

fun asyncRules :: "(string \<times> view) list \<Rightarrow> halt + string list" where
  \<comment> \<open>the rules that the callbacks of the style promises return\<close>
  "asyncRules [] = Inr []"
| "asyncRules ((property, resolvedValue) # rest) =
     (if nullish resolvedValue then map_sum id ((#) []) (asyncRules rest)
      else
        (case js_String resolvedValue of
           None \<Rightarrow> Inl Unmodelled
         | Some t \<Rightarrow> map_sum id ((#) (camelToKebab property @ '': '' @ t)) (asyncRules rest)))"

definition processStyleObject :: "view \<Rightarrow> halt + out" where
  "processStyleObject style =
     (if is_object style \<and> style \<noteq> VNull then
        (case processStyle_each (map (\<lambda>k. (k, field style k)) (keys_of style)) [] [] of
           Inl a \<Rightarrow> Inl a
         | Inr (syncRules, []) \<Rightarrow> Inr (Text (join ''; '' syncRules))
         | Inr (syncRules, sp # sps) \<Rightarrow>
             (case promise_all (map snd (sp # sps)) of
                Inl a \<Rightarrow> Inl a
              | Inr p \<Rightarrow>
                  andThen p (\<lambda>vs.
                    map_sum id
                      (\<lambda>rules. Text (join ''; '' (syncRules @ filter (\<lambda>rule. rule \<noteq> []) rules)))
                      (asyncRules (zip (map fst (sp # sps)) vs)))))
      else
        (case js_String style of None \<Rightarrow> Inl Unmodelled | Some t \<Rightarrow> Inr (Text t)))"

definition renderStyle :: "view \<Rightarrow> halt + out" where
  "renderStyle style =
     (if \<not> truthy style then Inr (Text [])
      else if is_function style then
        (case thenable (evaluateFunction style) of
           IsPromise p \<Rightarrow> andThen p processStyleObject
         | OtherThenable \<Rightarrow> Inl Unmodelled
         | NotThenable \<Rightarrow>
             (case processStyleObject (evaluateFunction style) of
                Inl (Raise m) \<Rightarrow> Inr (Text [])
              | result \<Rightarrow> result))
      else processStyleObject style)"

section \<open>The string renderer: rendering\<close>

text \<open>
  The functions below call \<open>this.render\<close> through two parameters. \<open>nested\<close> is the call made
  while the caller is running. \<open>later\<close> is the call made from the callback of a promise:
  it runs after the outermost call of \<open>render\<close> has returned, so with \<open>renderDepth\<close> at the
  value it has between calls, and the state it leaves is not the state of the caller.
\<close>

type_synonym render_fn = "renderer \<Rightarrow> view \<Rightarrow> (halt + out) \<times> renderer"

fun render_each :: "render_fn \<Rightarrow> renderer \<Rightarrow> view list \<Rightarrow> (halt + out list) \<times> renderer" where
  \<comment> \<open>\<open>vnode.map(child => this.render(child, context))\<close>\<close>
  "render_each nested r [] = (Inr [], r)"
| "render_each nested r (child # children) =
     (case nested r child of
        (Inl a, r1) \<Rightarrow> (Inl a, r1)
      | (Inr result, r1) \<Rightarrow>
          (case render_each nested r1 children of
             (Inl a, r2) \<Rightarrow> (Inl a, r2)
           | (Inr results, r2) \<Rightarrow> (Inr (result # results), r2)))"

definition render_array :: "render_fn \<Rightarrow> renderer \<Rightarrow> view list \<Rightarrow> (halt + out) \<times> renderer" where
  "render_array nested r children =
     (case render_each nested r children of
        (Inl a, r1) \<Rightarrow> (Inl a, r1)
      | (Inr results, r1) \<Rightarrow> (join_results results, r1))"

definition renderChildrenContent :: "render_fn \<Rightarrow> renderer \<Rightarrow> view \<Rightarrow> (halt + out) \<times> renderer" where
  "renderChildrenContent nested r children =
     (case children of
        VArr xs \<Rightarrow> render_array nested r xs
      | _ \<Rightarrow> if \<not> nullish children then nested r children else (Inr (Text []), r))"

definition finalizeElement :: "string \<Rightarrow> string \<Rightarrow> string" where
  "finalizeElement tagName html =
     (if \<not> isVoidElement tagName then html @ ''</'' @ tagName @ ''>'' else html)"

definition escaped_text :: "view \<Rightarrow> halt + string" where
  \<comment> \<open>\<open>this._escapeHtml(String(text))\<close>\<close>
  "escaped_text text =
     (case js_String text of
        None \<Rightarrow> Inl Unmodelled
      | Some t \<Rightarrow> (case escapeHtml (VStr t) of None \<Rightarrow> Inl Unmodelled | Some e \<Rightarrow> Inr e))"

definition finalize_later :: "string \<Rightarrow> string \<Rightarrow> halt + out \<Rightarrow> halt + out" where
  \<comment> \<open>\<open>contentPromise.then(content => this._finalizeElement(tagName, htmlSoFar + content))\<close>\<close>
  "finalize_later tagName htmlSoFar contentPromise =
     (case contentPromise of
        Inl a \<Rightarrow> Inl a
      | Inr (Text t) \<Rightarrow> Inr (Text t)
      | Inr (Promise p) \<Rightarrow>
          andThen p (\<lambda>content. Inr (Text (finalizeElement tagName (htmlSoFar @ content)))))"

definition renderElementContent ::
  "render_fn \<Rightarrow> render_fn \<Rightarrow> renderer \<Rightarrow> string \<Rightarrow> view \<Rightarrow> string \<Rightarrow> (halt + out) \<times> renderer" where
  "renderElementContent nested later r tagName props htmlSoFar =
     (if field props ''text'' \<noteq> VUndefined then
        (case thenable (evaluateFunction (field props ''text'')) of
           IsPromise p \<Rightarrow>
             (finalize_later tagName htmlSoFar
                (andThen p (\<lambda>resolvedText. map_sum id Text (escaped_text resolvedText))), r)
         | OtherThenable \<Rightarrow> (Inl Unmodelled, r)
         | NotThenable \<Rightarrow>
             (case escaped_text (evaluateFunction (field props ''text'')) of
                Inl a \<Rightarrow> (Inl a, r)
              | Inr textContent \<Rightarrow>
                  (Inr (Text (finalizeElement tagName (htmlSoFar @ textContent))), r)))
      else if field props ''children'' \<noteq> VUndefined then
        (case thenable (evaluateFunction (field props ''children'')) of
           IsPromise p \<Rightarrow>
             (finalize_later tagName htmlSoFar
                (andThen p (\<lambda>resolvedChildren. fst (renderChildrenContent later r resolvedChildren))),
              r)
         | OtherThenable \<Rightarrow> (Inl Unmodelled, r)
         | NotThenable \<Rightarrow>
             (case renderChildrenContent nested r (evaluateFunction (field props ''children'')) of
                (Inl a, r1) \<Rightarrow> (Inl a, r1)
              | (Inr (Promise q), r1) \<Rightarrow> (finalize_later tagName htmlSoFar (Inr (Promise q)), r1)
              | (Inr (Text childrenResult), r1) \<Rightarrow>
                  (Inr (Text (finalizeElement tagName (htmlSoFar @ childrenResult))), r1)))
      else (Inr (Text (finalizeElement tagName htmlSoFar)), r))"

definition with_style :: "string \<Rightarrow> string \<Rightarrow> string" where
  \<comment> \<open>\<open>if (styleStr) html += ` style="${this._escapeAttributeValue(styleStr)}"`; html += '>'\<close>\<close>
  "with_style html styleStr =
     (if styleStr \<noteq> [] then html @ '' style='' @ [dq] @ escape_attribute styleStr @ [dq] else html)
     @ ''>''"

definition continueElementRendering ::
  "render_fn \<Rightarrow> render_fn \<Rightarrow> renderer \<Rightarrow> string \<Rightarrow> view \<Rightarrow> string \<Rightarrow> (halt + out) \<times> renderer" where
  "continueElementRendering nested later r tagName props processedAttributes =
     (case renderStyle (field props ''style'') of
        Inl a \<Rightarrow> (Inl a, r)
      | Inr (Promise p) \<Rightarrow>
          (andThen p (\<lambda>resolvedStyle.
             fst (renderElementContent later later r tagName props
                    (with_style (''<'' @ tagName @ processedAttributes) resolvedStyle))), r)
      | Inr (Text styleStr) \<Rightarrow>
          renderElementContent nested later r tagName props
            (with_style (''<'' @ tagName @ processedAttributes) styleStr))"

definition renderElement ::
  "render_fn \<Rightarrow> render_fn \<Rightarrow> renderer \<Rightarrow> string \<Rightarrow> view \<Rightarrow> (halt + out) \<times> renderer" where
  "renderElement nested later r tagName props =
     (case processAttributes r props of
        Inl a \<Rightarrow> (Inl a, r)
      | Inr (Promise p) \<Rightarrow>
          (andThen p (\<lambda>attrs. fst (continueElementRendering later later r tagName props attrs)), r)
      | Inr (Text processedAttributes) \<Rightarrow>
          continueElementRendering nested later r tagName props processedAttributes)"

definition isValidTag :: "renderer \<Rightarrow> string \<Rightarrow> bool" where
  \<comment> \<open>\<open>/^[a-z][a-z0-9]*$/i\<close>, \<open>/^[A-Z][a-zA-Z0-9]*$/\<close>, or a registered component\<close>
  "isValidTag r firstKey =
     ((firstKey \<noteq> [] \<and> is_letter (hd firstKey) \<and> list_all is_alnum (tl firstKey)) \<or>
      (firstKey \<noteq> [] \<and> is_upper (hd firstKey) \<and> list_all is_alnum (tl firstKey)) \<or>
      has_component r firstKey)"

definition caught :: "string \<Rightarrow> (halt + out) \<times> renderer \<Rightarrow> (halt + out) \<times> renderer" where
  \<comment> \<open>a \<open>catch\<close> block that returns a comment with the message of the error\<close>
  "caught prefix result =
     (case result of
        (Inl (Raise m), r) \<Rightarrow> (Inr (Text (prefix @ m @ '' -->'')), r)
      | _ \<Rightarrow> result)"

definition processComponentResult ::
  "render_fn \<Rightarrow> render_fn \<Rightarrow> renderer \<Rightarrow> view \<Rightarrow> string \<Rightarrow> (halt + out) \<times> renderer" where
  "processComponentResult nested later r componentResult tagName =
     (if \<not> truthy componentResult then (Inr (Text []), r)
      else if is_function (field componentResult ''render'') then
        caught (''<!-- Component '' @ tagName @ '' render error: '')
          (case field componentResult ''render'' of
             VFun (Throws m) \<Rightarrow> (Inl (Raise m), r)
           | VFun (Returns renderResult) \<Rightarrow>
               (case thenable renderResult of
                  IsPromise p \<Rightarrow> (andThen p (\<lambda>resolvedRender. fst (later r resolvedRender)), r)
                | OtherThenable \<Rightarrow> (Inl Unmodelled, r)
                | NotThenable \<Rightarrow> nested r renderResult)
           | _ \<Rightarrow> (Inl Unmodelled, r))
      else if is_object componentResult \<and> keys_of componentResult \<noteq> [] \<and>
              isValidTag r (hd (keys_of componentResult))
        then nested r componentResult
      else (map_sum id Text (escaped_text componentResult), r))"

definition renderComponent ::
  "render_fn \<Rightarrow> render_fn \<Rightarrow> renderer \<Rightarrow> string \<Rightarrow> view \<Rightarrow> (halt + out) \<times> renderer" where
  "renderComponent nested later r tagName props =
     caught (''<!-- Component '' @ tagName @ '' error: '')
       (case juris r of
          None \<Rightarrow> (Inl Unmodelled, r)
        | Some components \<Rightarrow>
            (case map_of components tagName of
               None \<Rightarrow> (Inl Unmodelled, r)
             | Some componentFn \<Rightarrow>
                 (case componentFn props of
                    Throws m \<Rightarrow> (Inl (Raise m), r)
                  | Returns componentResult \<Rightarrow>
                      (case thenable componentResult of
                         IsPromise p \<Rightarrow>
                           (andThen p (\<lambda>resolvedResult.
                              fst (processComponentResult later later r resolvedResult tagName)), r)
                       | OtherThenable \<Rightarrow> (Inl Unmodelled, r)
                       | NotThenable \<Rightarrow>
                           processComponentResult nested later r componentResult tagName))))"

definition renderInternal ::
  "render_fn \<Rightarrow> render_fn \<Rightarrow> renderer \<Rightarrow> view \<Rightarrow> (halt + out) \<times> renderer" where
  "renderInternal nested later r vnode =
     (if \<not> truthy vnode then (Inr (Text []), r)
      else if \<not> is_object vnode then (map_sum id Text (escaped_text vnode), r)
      else
        (case vnode of
           VArr children \<Rightarrow> render_array nested r children
         | _ \<Rightarrow>
             (case keys_of vnode of
                [] \<Rightarrow> (Inr (Text []), r)
              | tagName # keys \<Rightarrow>
                  if tagName = [] then (Inr (Text []), r)
                  else if has_component r tagName
                  then renderComponent nested later r tagName
                         (if truthy (field vnode tagName) then field vnode tagName else VObj [])
                  else renderElement nested later r tagName
                         (if truthy (field vnode tagName) then field vnode tagName else VObj []))))"

definition depth_marker :: string where
  "depth_marker = ''<!-- Max render depth exceeded -->''"

definition render_body :: "render_fn \<Rightarrow> render_fn \<Rightarrow> render_fn" where
  \<comment> \<open>\<open>render\<close>; the branch taken when \<open>asyncDetected\<close> is set hands over to \<open>renderAsync\<close>,
      which the model does not describe\<close>
  "render_body nested later r vnode =
     (if renderDepth r > maxRenderDepth r then (Inr (Text depth_marker), r)
      else
        (case renderInternal nested later
                (r\<lparr>renderDepth := renderDepth r + 1, asyncDetected := False\<rparr>) vnode of
           (Inl (Raise m), r1) \<Rightarrow>
             (Inr (Text (''<!-- Render error: '' @ m @ '' -->'')),
              r1\<lparr>renderDepth := renderDepth r1 - 1\<rparr>)
         | (Inl a, r1) \<Rightarrow> (Inl a, r1\<lparr>renderDepth := renderDepth r1 - 1\<rparr>)
         | (Inr (Promise p), r1) \<Rightarrow> (Inr (Promise p), r1\<lparr>renderDepth := renderDepth r1 - 1\<rparr>)
         | (Inr (Text t), r1) \<Rightarrow>
             (if asyncDetected r1 then (Inl Unmodelled, r1\<lparr>renderDepth := renderDepth r1 - 1\<rparr>)
              else (Inr (Text t), r1\<lparr>renderDepth := renderDepth r1 - 1\<rparr>))))"

fun render_fuel :: "int \<Rightarrow> nat \<Rightarrow> nat \<Rightarrow> nat \<Rightarrow> render_fn" where
  \<comment> \<open>\<open>render_fuel idle full hops n\<close>: at most \<open>n\<close> calls of \<open>render\<close> inside one another, at
      most \<open>hops\<close> promise callbacks that call \<open>render\<close> one after the other, each starting
      with \<open>renderDepth = idle\<close> and \<open>full\<close> nested calls\<close>
  "render_fuel idle full hops 0 = (\<lambda>r vnode. (Inl NestingFuel, r))"
| "render_fuel idle full 0 (Suc n) =
     render_body (render_fuel idle full 0 n) (\<lambda>r vnode. (Inl HopFuel, r))"
| "render_fuel idle full (Suc hops) (Suc n) =
     render_body (render_fuel idle full (Suc hops) n)
       (\<lambda>r vnode. render_fuel idle full hops full (r\<lparr>renderDepth := idle\<rparr>) vnode)"

definition render :: "nat \<Rightarrow> render_fn" where
  \<comment> \<open>a call of \<open>render\<close> from outside, with the fuel that \<open>render_fuel_fuelled\<close> shows to
      be enough for the nested calls\<close>
  "render hops r vnode =
     render_fuel (renderDepth r) (Suc (nat (maxRenderDepth r + 1 - renderDepth r))) hops
       (Suc (nat (maxRenderDepth r + 1 - renderDepth r))) r vnode"

definition renderToString :: "nat \<Rightarrow> renderer \<Rightarrow> view \<Rightarrow> bool \<Rightarrow> (halt + out) \<times> renderer" where
  \<comment> \<open>\<open>renderToString(layout, context, {async: forceAsync})\<close>; the forced asynchronous
      path is not modelled\<close>
  "renderToString hops r layout forceAsync =
     (if \<not> truthy layout then (Inr (Text ''<p>No layout provided</p>''), r)
      else if forceAsync then (Inl Unmodelled, r)
      else
        (case render hops r layout of
           (Inl (Raise m), r1) \<Rightarrow>
             (Inr (Text (''<div style='' @ [dq] @ ''color: red;'' @ [dq] @
                         ''>StringRenderer Error: '' @ m @ ''</div>'')), r1)
         | (Inl a, r1) \<Rightarrow> (Inl a, r1)
         | (Inr (Text t), r1) \<Rightarrow> (Inr (Text t), r1)
         | (Inr (Promise (Rejected m)), r1) \<Rightarrow>
             (Inr (Promise (Fulfilled
                (''<div style='' @ [dq] @ ''color: red;'' @ [dq] @
                 ''>Smart Render Error: '' @ m @ ''</div>''))), r1)
         | (Inr (Promise p), r1) \<Rightarrow> (Inr (Promise p), r1)))"

section \<open>Escaping of text\<close>

definition entity :: "char \<Rightarrow> string" where
  \<comment> \<open>what one character of a text becomes in the output\<close>
  "entity c =
     (if c = CHR ''&'' then ''&amp;''
      else if c = CHR ''<'' then ''&lt;''
      else if c = CHR ''>'' then ''&gt;''
      else if c = dq then ''&quot;''
      else if c = CHR 0x27 then ''&#39;''
      else [c])"

lemma replaceAll_Nil: "replaceAll c r [] = []"
  by (simp add: replaceAll_def)

lemma replaceAll_append: "replaceAll c r (a @ b) = replaceAll c r a @ replaceAll c r b"
  by (simp add: replaceAll_def)

lemma replaceAll_concat_map:
  "replaceAll c r (concat (map f s)) = concat (map (\<lambda>x. replaceAll c r (f x)) s)"
  by (induction s) (simp_all add: replaceAll_Nil replaceAll_append)

lemma replaceAll_chars: "replaceAll c r s = concat (map (\<lambda>x. replaceAll c r [x]) s)"
  by (simp add: replaceAll_def)

lemma escape_html_char: 
  "replaceAll (CHR 0x27) ''&#39;''
       (replaceAll dq ''&quot;''
          (replaceAll CHR ''>'' ''&gt;''
             (replaceAll CHR ''<'' ''&lt;''
                (replaceAll CHR ''&'' ''&amp;'' [x])))) = entity x"
  by (simp add: replaceAll_def entity_def dq_def)

lemma escape_attribute_char: 
  "replaceAll CHR ''>'' ''&gt;''
       (replaceAll CHR ''<'' ''&lt;''
          (replaceAll (CHR 0x27) ''&#39;''
             (replaceAll dq ''&quot;''
                (replaceAll CHR ''&'' ''&amp;'' [x])))) = entity x"
  by (simp add: replaceAll_def entity_def dq_def)

lemma escape_html_entities: "escape_html s = concat (map entity s)"
proof -
  have "escape_html s =
     replaceAll (CHR 0x27) ''&#39;''
       (replaceAll dq ''&quot;''
          (replaceAll CHR ''>'' ''&gt;''
             (replaceAll CHR ''<'' ''&lt;''
                (concat (map (\<lambda>x. replaceAll CHR ''&'' ''&amp;'' [x]) s)))))"
    unfolding escape_html_def by (subst replaceAll_chars) (rule refl)
  then show ?thesis
    by (simp only: replaceAll_concat_map escape_html_char)
qed

lemma escape_attribute_entities: "escape_attribute s = concat (map entity s)"
proof -
  have "escape_attribute s =
     replaceAll CHR ''>'' ''&gt;''
       (replaceAll CHR ''<'' ''&lt;''
          (replaceAll (CHR 0x27) ''&#39;''
             (replaceAll dq ''&quot;''
                (concat (map (\<lambda>x. replaceAll CHR ''&'' ''&amp;'' [x]) s)))))"
    unfolding escape_attribute_def by (subst replaceAll_chars) (rule refl)
  then show ?thesis
    by (simp only: replaceAll_concat_map escape_attribute_char)
qed

lemma evaluateFunction_value: "\<not> is_function v \<Longrightarrow> evaluateFunction v = v"
  by (cases v) (simp_all add: evaluateFunction_def)

lemma skip_text: "shouldSkipAttribute ''text''"
  by (simp add: shouldSkipAttribute_def skipAttributes_def)

lemma processAttributes_text:
  "''text'' \<notin> set (specialAttributeHandlers r) \<Longrightarrow>
   processAttributes r (VObj [(''text'', v)]) = Inr (Text [])"
  by (simp add: processAttributes_def skip_text)

lemma renderStyle_undefined: "renderStyle VUndefined = Inr (Text [])"
  by (simp add: renderStyle_def)

lemma renderElement_text:
  assumes "''text'' \<notin> set (specialAttributeHandlers r)"
    and "v \<noteq> VUndefined" "\<not> is_function v" "thenable v = NotThenable"
    and "js_String v = Some t"
  shows "renderElement nested later r tagName (VObj [(''text'', v)]) =
           (Inr (Text (''<'' @ tagName @ ''>'' @ concat (map entity t) @
                       (if isVoidElement tagName then [] else ''</'' @ tagName @ ''>''))), r)"
  using assms
  by (simp add: renderElement_def processAttributes_text continueElementRendering_def
      renderStyle_undefined with_style_def renderElementContent_def evaluateFunction_value
      escaped_text_def escapeHtml_def escape_html_entities finalizeElement_def)

lemma render_body_text:
  assumes "tagName \<noteq> []" "\<not> has_component r tagName"
    and "''text'' \<notin> set (specialAttributeHandlers r)"
    and "renderDepth r \<le> maxRenderDepth r"
    and "v \<noteq> VUndefined" "\<not> is_function v" "thenable v = NotThenable"
    and "js_String v = Some t"
  shows "fst (render_body nested later r (VObj [(tagName, VObj [(''text'', v)])])) =
           Inr (Text (''<'' @ tagName @ ''>'' @ concat (map entity t) @
                       (if isVoidElement tagName then [] else ''</'' @ tagName @ ''>'')))"
proof -
  let ?r = "r\<lparr>renderDepth := renderDepth r + 1, asyncDetected := False\<rparr>"
  have h: "\<not> has_component ?r tagName" "''text'' \<notin> set (specialAttributeHandlers ?r)"
    using assms(2,3) by (simp_all add: has_component_def)
  have "renderInternal nested later ?r (VObj [(tagName, VObj [(''text'', v)])]) =
          renderElement nested later ?r tagName (VObj [(''text'', v)])"
    using assms(1) h(1) by (simp add: renderInternal_def)
  then show ?thesis
    using assms(4) by (simp add: render_body_def renderElement_text [OF h(2) assms(5-8)])
qed

lemma render_unfold:
  "\<exists>nested later. render hops r vnode = render_body nested later r vnode"
  by (cases hops) (auto simp: render_def)

text \<open>
  C7. \<open>_escapeHtml\<close> replaces each of the five characters \<open>&\<close>, \<open><\<close>, \<open>>\<close>, \<open>"\<close>, \<open>'\<close> of a string
  by its entity and leaves every other character alone: the result is the concatenation of
  the entities of the characters, so the \<open>&\<close> that an entity brings in is not escaped again.
  An element whose \<open>text\<close> is a value \<open>v\<close> other than \<open>undefined\<close>, a function or a thenable is
  rendered as the opening tag, the escaped \<open>String(v)\<close> and, unless the element is void, the
  closing tag.
\<close>

theorem text_is_escaped:
  assumes "tagName \<noteq> []" "\<not> has_component r tagName"
    and "''text'' \<notin> set (specialAttributeHandlers r)"
    and "renderDepth r \<le> maxRenderDepth r"
    and "v \<noteq> VUndefined" "\<not> is_function v" "thenable v = NotThenable"
    and "js_String v = Some t"
  shows "escapeHtml (VStr t) = Some (concat (map entity t)) \<and>
         fst (render hops r (VObj [(tagName, VObj [(''text'', v)])])) =
           Inr (Text (''<'' @ tagName @ ''>'' @ concat (map entity t) @
                       (if isVoidElement tagName then [] else ''</'' @ tagName @ ''>'')))"
proof -
  obtain nested later where
    "render hops r (VObj [(tagName, VObj [(''text'', v)])]) =
       render_body nested later r (VObj [(tagName, VObj [(''text'', v)])])"
    using render_unfold by blast
  then show ?thesis
    using render_body_text [OF assms] by (simp add: escapeHtml_def escape_html_entities)
qed

theorem text_is_escaped_witness:
  "escapeHtml (VStr ''<b>&'') = Some ''&lt;b&gt;&amp;'' \<and>
   fst (render 0 (StringRenderer None) (VObj [(''div'', VObj [(''text'', VStr ''<b>&'')])])) =
     Inr (Text ''<div>&lt;b&gt;&amp;</div>'') \<and>
   escapeHtml (VStr (''&<>'' @ [dq, CHR 0x27])) = Some ''&amp;&lt;&gt;&quot;&#39;''"
proof -
  let ?r = "StringRenderer None"
  have h: "''div'' \<noteq> []" "\<not> has_component ?r ''div''"
    "''text'' \<notin> set (specialAttributeHandlers ?r)" "renderDepth ?r \<le> maxRenderDepth ?r"
    "VStr ''<b>&'' \<noteq> VUndefined" "\<not> is_function (VStr ''<b>&'')"
    "thenable (VStr ''<b>&'') = NotThenable" "js_String (VStr ''<b>&'') = Some ''<b>&''"
    by code_simp+
  have e: "entity CHR ''<'' = ''&lt;''" "entity CHR ''b'' = ''b''" "entity CHR ''>'' = ''&gt;''"
    "entity CHR ''&'' = ''&amp;''" "\<not> isVoidElement ''div''"
    by code_simp+
  have x: "escapeHtml (VStr (''&<>'' @ [dq, CHR 0x27])) = Some ''&amp;&lt;&gt;&quot;&#39;''"
    by code_simp
  from text_is_escaped [OF h, of 0]
  show ?thesis using x by (simp add: e)
qed

section \<open>Boolean, data- and aria- attributes\<close>

lemma attribute_entities:
  "\<not> nullish v \<Longrightarrow> js_String v = Some t \<Longrightarrow>
   attribute name v = Inr ('' '' @ name @ ''='' @ [dq] @ concat (map entity t) @ [dq])"
  by (simp add: attribute_def escapeAttributeValue_def escape_attribute_entities)

lemma attribute_not_bare: "attribute name v \<noteq> Inr (CHR '' '' # name)"
  by (simp add: attribute_def split: option.splits)

lemma attribute_not_empty: "attribute name v \<noteq> Inr []"
  by (simp add: attribute_def split: option.splits)

lemma data_not_boolean:
  "startsWith l ''data-'' \<or> startsWith l ''aria-'' \<Longrightarrow> l \<notin> set booleanAttributes"
  by (auto simp: startsWith_def booleanAttributes_def)

lemma renderAttribute_boolean:
  assumes "toLowerCase name \<notin> set (specialAttributeHandlers r)"
    and "toLowerCase name \<in> set booleanAttributes"
  shows "renderAttribute r name v =
           (if nullish v \<or> v = VBool False then Inr []
            else if v = VBool True \<or> v = VStr [] \<or> v = VStr name \<or> v = VStr (toLowerCase name)
            then Inr ('' '' @ name)
            else attribute name v)"
  using assms by (auto simp: renderAttribute_def Let_def)

lemma renderAttribute_data:
  assumes "toLowerCase name \<notin> set (specialAttributeHandlers r)"
    and "startsWith (toLowerCase name) ''data-'' \<or> startsWith (toLowerCase name) ''aria-''"
  shows "renderAttribute r name v = (if nullish v then Inr [] else attribute name v)"
  using assms data_not_boolean [OF assms(2)] by (auto simp: renderAttribute_def Let_def)

text \<open>
  C8, as the code has it. For a name without a special handler whose lower-case form is in
  the set of boolean attributes, \<open>_renderAttribute\<close> gives the bare name exactly for the
  values \<open>true\<close>, \<open>''\<close>, the name itself and its lower-case form; it gives nothing exactly
  for \<open>false\<close>, \<open>null\<close> and \<open>undefined\<close>; and for every other value it gives \<open>name="value"\<close> with
  the escaped \<open>String(value)\<close>. For a name that starts with \<open>data-\<close> or \<open>aria-\<close> it gives
  nothing for \<open>null\<close> and \<open>undefined\<close> and \<open>name="value"\<close> with the escaped \<open>String(value)\<close> for
  every other value.
\<close>

theorem boolean_and_data_attributes:
  assumes "toLowerCase name \<notin> set (specialAttributeHandlers r)"
  shows "(toLowerCase name \<in> set booleanAttributes \<longrightarrow>
            (renderAttribute r name v = Inr ('' '' @ name) \<longleftrightarrow>
               v = VBool True \<or> v = VStr [] \<or> v = VStr name \<or> v = VStr (toLowerCase name)) \<and>
            (renderAttribute r name v = Inr [] \<longleftrightarrow> v = VBool False \<or> v = VNull \<or> v = VUndefined) \<and>
            (\<forall>t. js_String v = Some t \<longrightarrow>
                 v \<noteq> VBool True \<longrightarrow> v \<noteq> VStr [] \<longrightarrow> v \<noteq> VStr name \<longrightarrow>
                 v \<noteq> VStr (toLowerCase name) \<longrightarrow>
                 v \<noteq> VBool False \<longrightarrow> v \<noteq> VNull \<longrightarrow> v \<noteq> VUndefined \<longrightarrow>
                 renderAttribute r name v =
                   Inr ('' '' @ name @ ''='' @ [dq] @ concat (map entity t) @ [dq]))) \<and>
         (startsWith (toLowerCase name) ''data-'' \<or> startsWith (toLowerCase name) ''aria-'' \<longrightarrow>
            (nullish v \<longrightarrow> renderAttribute r name v = Inr []) \<and>
            (\<forall>t. \<not> nullish v \<longrightarrow> js_String v = Some t \<longrightarrow>
                 renderAttribute r name v =
                   Inr ('' '' @ name @ ''='' @ [dq] @ concat (map entity t) @ [dq])))"
proof (intro conjI impI allI)
  assume b: "toLowerCase name \<in> set booleanAttributes"
  note ra = renderAttribute_boolean [OF assms b]
  show "(renderAttribute r name v = Inr ('' '' @ name)) =
          (v = VBool True \<or> v = VStr [] \<or> v = VStr name \<or> v = VStr (toLowerCase name))"
    by (cases v) (auto simp: ra attribute_not_bare)
  show "(renderAttribute r name v = Inr []) = (v = VBool False \<or> v = VNull \<or> v = VUndefined)"
    by (cases v) (auto simp: ra attribute_not_empty)
  fix t
  assume "js_String v = Some t" "v \<noteq> VBool True" "v \<noteq> VStr []" "v \<noteq> VStr name"
    "v \<noteq> VStr (toLowerCase name)" "v \<noteq> VBool False" "v \<noteq> VNull" "v \<noteq> VUndefined"
  then show "renderAttribute r name v =
               Inr ('' '' @ name @ ''='' @ [dq] @ concat (map entity t) @ [dq])"
    by (cases v) (simp_all add: ra attribute_entities)
next
  assume d: "startsWith (toLowerCase name) ''data-'' \<or> startsWith (toLowerCase name) ''aria-''"
  note ra = renderAttribute_data [OF assms d]
  show "renderAttribute r name v = Inr []" if "nullish v"
    using that by (simp add: ra)
  show "renderAttribute r name v =
          Inr ('' '' @ name @ ''='' @ [dq] @ concat (map entity t) @ [dq])"
    if "\<not> nullish v" "js_String v = Some t" for t
    using that by (simp add: ra attribute_entities)
qed

theorem boolean_and_data_attributes_witness:
  "toLowerCase ''checked'' \<notin> set (specialAttributeHandlers (StringRenderer None)) \<and>
   toLowerCase ''checked'' \<in> set booleanAttributes \<and>
   renderAttribute (StringRenderer None) ''checked'' (VBool True) = Inr '' checked'' \<and>
   renderAttribute (StringRenderer None) ''checked'' (VBool False) = Inr [] \<and>
   js_String (VStr ''a<b'') = Some ''a<b'' \<and>
   renderAttribute (StringRenderer None) ''checked'' (VStr ''a<b'') =
     Inr ('' checked='' @ [dq] @ ''a&lt;b'' @ [dq]) \<and>
   toLowerCase ''data-id'' \<notin> set (specialAttributeHandlers (StringRenderer None)) \<and>
   startsWith (toLowerCase ''data-id'') ''data-'' \<and>
   renderAttribute (StringRenderer None) ''data-id'' VNull = Inr [] \<and>
   renderAttribute (StringRenderer None) ''data-id'' (VStr ''a<b'') =
     Inr ('' data-id='' @ [dq] @ ''a&lt;b'' @ [dq])"
proof -
  let ?r = "StringRenderer None"
  have h: "toLowerCase ''checked'' \<notin> set (specialAttributeHandlers ?r)"
    "toLowerCase ''data-id'' \<notin> set (specialAttributeHandlers ?r)"
    by code_simp+
  have b: "toLowerCase ''checked'' \<in> set booleanAttributes"
    "startsWith (toLowerCase ''data-id'') ''data-''" by code_simp+
  have l: "toLowerCase ''checked'' = ''checked''" by code_simp
  have e: "concat (map entity ''a<b'') = ''a&lt;b''" by code_simp
  from boolean_and_data_attributes [OF h(1), of "VBool True"]
    boolean_and_data_attributes [OF h(1), of "VBool False"]
    boolean_and_data_attributes [OF h(1), of "VStr ''a<b''"]
    boolean_and_data_attributes [OF h(2), of "VNull"]
    boolean_and_data_attributes [OF h(2), of "VStr ''a<b''"]
  show ?thesis
    unfolding e [symmetric] using h b by (simp add: l)
qed

text \<open>
  For \<open>checked\<close> the empty string, which is falsy, gives the bare name; the truthy \<open>1\<close> and the
  falsy \<open>0\<close> both give \<open>checked="..."\<close>. For \<open>data-id\<close> the value \<open>null\<close> gives nothing.
\<close>

theorem boolean_and_data_attributes_counterexample:
  "\<not> truthy (VStr []) \<and>
   renderAttribute (StringRenderer None) ''checked'' (VStr []) = Inr '' checked'' \<and>
   truthy (VNum 1) \<and>
   renderAttribute (StringRenderer None) ''checked'' (VNum 1) =
     Inr ('' checked='' @ [dq] @ ''1'' @ [dq]) \<and>
   \<not> truthy (VNum 0) \<and>
   renderAttribute (StringRenderer None) ''checked'' (VNum 0) =
     Inr ('' checked='' @ [dq] @ ''0'' @ [dq]) \<and>
   renderAttribute (StringRenderer None) ''data-id'' VNull = Inr [] \<and>
   fst (render 0 (StringRenderer None)
          (VObj [(''input'', VObj [(''checked'', VNum 0), (''data-id'', VNull)])])) =
     Inr (Text (''<input checked='' @ [dq] @ ''0'' @ [dq] @ ''>''))"
  by code_simp

section \<open>The depth guard\<close>

text \<open>
  \<open>sound I strict f\<close> says that \<open>f\<close>, started in a renderer that satisfies \<open>I\<close>, leaves one that
  satisfies \<open>I\<close> and, when \<open>strict\<close>, does not run out of fuel for nested calls.
\<close>

definition good :: "(renderer \<Rightarrow> bool) \<Rightarrow> bool \<Rightarrow> (halt + 'a) \<times> renderer \<Rightarrow> bool" where
  "good I strict x = (I (snd x) \<and> (strict \<longrightarrow> fst x \<noteq> Inl NestingFuel))"

definition sound :: "(renderer \<Rightarrow> bool) \<Rightarrow> bool \<Rightarrow> render_fn \<Rightarrow> bool" where
  "sound I strict f = (\<forall>r vnode. I r \<longrightarrow> good I strict (f r vnode))"

lemma good_pair [simp]: "good I b (y, r) = (I r \<and> (b \<longrightarrow> y \<noteq> Inl NestingFuel))"
  by (simp add: good_def)

lemma soundD: "sound I b f \<Longrightarrow> I r \<Longrightarrow> good I b (f r vnode)"
  by (simp add: sound_def)

lemma good_caught: "good I b x \<Longrightarrow> good I b (caught prefix x)"
  by (cases x) (auto simp: caught_def split: sum.splits halt.splits)

lemma andThen_fuel: "(\<And>v. k v \<noteq> Inl NestingFuel) \<Longrightarrow> andThen p k \<noteq> Inl NestingFuel"
  by (auto simp: andThen_def split: promise.splits sum.splits halt.splits out.splits)

lemma promise_all_fuel: "promise_all ps \<noteq> Inl NestingFuel"
  by (simp add: promise_all_def split: list.splits option.splits)

lemma join_results_fuel: "join_results results \<noteq> Inl NestingFuel"
  by (auto simp: join_results_def promise_all_fuel andThen_fuel split: sum.splits)

lemma escaped_text_fuel: "escaped_text v \<noteq> Inl NestingFuel"
  by (simp add: escaped_text_def split: option.splits)

lemma map_sum_fuel: "x \<noteq> Inl NestingFuel \<Longrightarrow> map_sum id f x \<noteq> Inl NestingFuel"
  by (cases x) simp_all

lemma attribute_fuel: "attribute name v \<noteq> Inl NestingFuel"
  by (simp add: attribute_def split: option.splits)

lemma if_neq: "(c \<Longrightarrow> a \<noteq> z) \<Longrightarrow> (\<not> c \<Longrightarrow> b \<noteq> z) \<Longrightarrow> (if c then a else b) \<noteq> z"
  by simp

lemma renderAttribute_fuel: "renderAttribute r name v \<noteq> Inl NestingFuel"
  unfolding renderAttribute_def Let_def
  by (intro if_neq; simp (no_asm) add: attribute_fuel split: option.splits)

lemma renderAttributes_fuel: "renderAttributes r kvs html \<noteq> Inl NestingFuel"
  by (induction r kvs html rule: renderAttributes.induct)
     (auto simp: renderAttribute_fuel split: sum.splits)

lemma processAttributes_each_fuel:
  "processAttributes_each r props keys html ps \<noteq> Inl NestingFuel"
  by (induction r props keys html ps rule: processAttributes_each.induct)
     (auto simp: renderAttribute_fuel split: sum.splits then_kind.splits)

lemma processAttributes_fuel: "processAttributes r props \<noteq> Inl NestingFuel"
  by (auto simp: processAttributes_def processAttributes_each_fuel promise_all_fuel
      renderAttributes_fuel map_sum_fuel intro!: andThen_fuel
      split: sum.splits prod.splits list.splits)

lemma asyncRules_fuel: "asyncRules kvs \<noteq> Inl NestingFuel"
  by (induction kvs rule: asyncRules.induct) (auto simp: map_sum_fuel split: option.splits)

lemma processStyle_each_fuel: "processStyle_each kvs rules ps \<noteq> Inl NestingFuel"
  by (induction kvs rules ps rule: processStyle_each.induct)
     (auto split: then_kind.splits option.splits)

lemma processStyleObject_fuel: "processStyleObject style \<noteq> Inl NestingFuel"
  by (auto simp: processStyleObject_def processStyle_each_fuel promise_all_fuel
      asyncRules_fuel map_sum_fuel intro!: andThen_fuel
      split: sum.splits prod.splits list.splits option.splits)

lemma renderStyle_fuel: "renderStyle style \<noteq> Inl NestingFuel"
  by (auto simp: renderStyle_def processStyleObject_fuel intro!: andThen_fuel
      split: then_kind.splits sum.splits halt.splits)

lemma finalize_later_fuel:
  "x \<noteq> Inl NestingFuel \<Longrightarrow> finalize_later tagName html x \<noteq> Inl NestingFuel"
  by (auto simp: finalize_later_def intro!: andThen_fuel split: sum.splits out.splits)

lemma good_render_each:
  assumes "sound I b nested"
  shows "I r \<Longrightarrow> good I b (render_each nested r children)"
proof (induction children arbitrary: r)
  case Nil
  then show ?case by simp
next
  case (Cons child children)
  obtain y r1 where n: "nested r child = (y, r1)" by (cases "nested r child")
  with soundD [OF assms Cons.prems, of child] have g1: "I r1" "b \<longrightarrow> y \<noteq> Inl NestingFuel"
    by simp_all
  obtain ys r2 where e: "render_each nested r1 children = (ys, r2)"
    by (cases "render_each nested r1 children")
  with Cons.IH [OF g1(1)] have g2: "I r2" "b \<longrightarrow> ys \<noteq> Inl NestingFuel" by simp_all
  show ?case using g1 g2 by (auto simp: n e split: sum.splits)
qed

lemma good_render_array:
  assumes "sound I b nested" "I r"
  shows "good I b (render_array nested r children)"
proof -
  obtain ys r1 where e: "render_each nested r children = (ys, r1)"
    by (cases "render_each nested r children")
  with good_render_each [OF assms, of children] show ?thesis
    by (auto simp: render_array_def join_results_fuel split: sum.splits)
qed

lemma good_renderChildrenContent:
  assumes "sound I b nested" "I r"
  shows "good I b (renderChildrenContent nested r children)"
  using good_render_array [OF assms] soundD [OF assms] assms(2)
  by (cases children) (simp_all add: renderChildrenContent_def)

lemma good_fst: "good I b x \<Longrightarrow> b \<longrightarrow> fst x \<noteq> Inl NestingFuel"
  by (simp add: good_def)

lemma andThen_strict:
  "(\<And>v. b \<longrightarrow> k v \<noteq> Inl NestingFuel) \<Longrightarrow> b \<longrightarrow> andThen p k \<noteq> Inl NestingFuel"
  using andThen_fuel [of k p] by blast

lemma good_renderElementContent:
  assumes n: "sound I b nested" and l: "sound J b later" and sub: "\<And>r. I r \<Longrightarrow> J r"
    and i: "I r"
  shows "good I b (renderElementContent nested later r tagName props htmlSoFar)"
proof -
  have t: "finalize_later tagName htmlSoFar
             (andThen p (\<lambda>resolvedText. map_sum id Text (escaped_text resolvedText))) \<noteq>
           Inl NestingFuel" for p
    by (intro finalize_later_fuel andThen_fuel map_sum_fuel escaped_text_fuel)
  have c: "b \<longrightarrow> finalize_later tagName htmlSoFar
             (andThen p (\<lambda>resolvedChildren. fst (renderChildrenContent later r resolvedChildren))) \<noteq>
           Inl NestingFuel" for p
  proof
    assume b
    then have "andThen p (\<lambda>v. fst (renderChildrenContent later r v)) \<noteq> Inl NestingFuel"
      using andThen_strict [of b "\<lambda>v. fst (renderChildrenContent later r v)" p]
        good_fst [OF good_renderChildrenContent [OF l sub [OF i]]]
      by blast
    then show "finalize_later tagName htmlSoFar
             (andThen p (\<lambda>resolvedChildren. fst (renderChildrenContent later r resolvedChildren))) \<noteq>
           Inl NestingFuel"
      by (rule finalize_later_fuel)
  qed
  obtain y r1 where s: "renderChildrenContent nested r (evaluateFunction (field props ''children''))
      = (y, r1)"
    by (cases "renderChildrenContent nested r (evaluateFunction (field props ''children''))")
  with good_renderChildrenContent [OF n i, of "evaluateFunction (field props ''children'')"]
  have g: "I r1" "b \<longrightarrow> y \<noteq> Inl NestingFuel" by simp_all
  show ?thesis
    unfolding renderElementContent_def
    using i t c g
    by (auto simp: s escaped_text_fuel finalize_later_fuel
        split: then_kind.splits sum.splits out.splits)
qed

lemma good_continueElementRendering:
  assumes n: "sound I b nested" and l: "sound J b later" and sub: "\<And>r. I r \<Longrightarrow> J r"
    and i: "I r"
  shows "good I b (continueElementRendering nested later r tagName props attrs)"
proof -
  have c: "b \<longrightarrow> andThen p (\<lambda>resolvedStyle.
             fst (renderElementContent later later r tagName props
                    (with_style (''<'' @ tagName @ attrs) resolvedStyle))) \<noteq> Inl NestingFuel" for p
    by (rule andThen_strict) (rule good_fst [OF good_renderElementContent [OF l l _ sub [OF i]]])
  show ?thesis
    unfolding continueElementRendering_def
    using i c good_renderElementContent [OF n l sub i] renderStyle_fuel [of "field props ''style''"]
    by (auto split: sum.splits out.splits)
qed

lemma good_renderElement:
  assumes n: "sound I b nested" and l: "sound J b later" and sub: "\<And>r. I r \<Longrightarrow> J r"
    and i: "I r"
  shows "good I b (renderElement nested later r tagName props)"
proof -
  have c: "b \<longrightarrow> andThen p (\<lambda>attrs.
             fst (continueElementRendering later later r tagName props attrs)) \<noteq> Inl NestingFuel"
    for p
    by (rule andThen_strict)
       (rule good_fst [OF good_continueElementRendering [OF l l _ sub [OF i]]])
  show ?thesis
    unfolding renderElement_def
    using i c good_continueElementRendering [OF n l sub i] processAttributes_fuel [of r props]
    by (auto split: sum.splits out.splits)
qed

lemma good_processComponentResult:
  assumes n: "sound I b nested" and l: "sound J b later" and sub: "\<And>r. I r \<Longrightarrow> J r"
    and i: "I r"
  shows "good I b (processComponentResult nested later r componentResult tagName)"
proof -
  have c: "b \<longrightarrow> andThen p (\<lambda>resolvedRender. fst (later r resolvedRender)) \<noteq> Inl NestingFuel"
    for p
    by (rule andThen_strict) (rule good_fst [OF soundD [OF l sub [OF i]]])
  have m: "good I b
     (case field componentResult ''render'' of
        VFun (Throws m) \<Rightarrow> (Inl (Raise m), r)
      | VFun (Returns renderResult) \<Rightarrow>
          (case thenable renderResult of
             IsPromise p \<Rightarrow> (andThen p (\<lambda>resolvedRender. fst (later r resolvedRender)), r)
           | OtherThenable \<Rightarrow> (Inl Unmodelled, r)
           | NotThenable \<Rightarrow> nested r renderResult)
      | _ \<Rightarrow> (Inl Unmodelled, r))"
    using i c soundD [OF n i]
    by (auto split: view.splits outcome.splits then_kind.splits)
  show ?thesis
    unfolding processComponentResult_def
    using i soundD [OF n i] good_caught [OF m]
    by (auto simp: map_sum_fuel escaped_text_fuel)
qed

lemma good_renderComponent:
  assumes n: "sound I b nested" and l: "sound J b later" and sub: "\<And>r. I r \<Longrightarrow> J r"
    and i: "I r"
  shows "good I b (renderComponent nested later r tagName props)"
proof -
  have c: "b \<longrightarrow> andThen p (\<lambda>resolvedResult.
             fst (processComponentResult later later r resolvedResult tagName)) \<noteq> Inl NestingFuel"
    for p
    by (rule andThen_strict)
       (rule good_fst [OF good_processComponentResult [OF l l _ sub [OF i]]])
  show ?thesis
    unfolding renderComponent_def
    using i c good_processComponentResult [OF n l sub i]
    by (intro good_caught)
       (auto split: option.splits outcome.splits then_kind.splits)
qed

lemma good_renderInternal:
  assumes n: "sound I b nested" and l: "sound J b later" and sub: "\<And>r. I r \<Longrightarrow> J r"
    and i: "I r"
  shows "good I b (renderInternal nested later r vnode)"
  unfolding renderInternal_def
  using i good_render_array [OF n i] good_renderComponent [OF n l sub i]
    good_renderElement [OF n l sub i]
  by (auto simp: map_sum_fuel escaped_text_fuel split: view.splits list.splits)

definition at_depth :: "int \<Rightarrow> int \<Rightarrow> renderer \<Rightarrow> bool" where
  "at_depth m d r = (maxRenderDepth r = m \<and> renderDepth r = d)"

definition from_depth :: "int \<Rightarrow> int \<Rightarrow> renderer \<Rightarrow> bool" where
  "from_depth m d r = (maxRenderDepth r = m \<and> d \<le> renderDepth r)"

lemma render_body_unwinds:
  assumes n: "\<And>m d. sound (at_depth m d) False nested"
  shows "sound (at_depth m d) False (render_body nested later)"
  unfolding sound_def
proof (intro allI impI)
  fix r vnode
  assume i: "at_depth m d r"
  let ?r = "r\<lparr>renderDepth := renderDepth r + 1, asyncDetected := False\<rparr>"
  have i1: "at_depth m (d + 1) ?r" using i by (simp add: at_depth_def)
  obtain y r1 where s: "renderInternal nested later ?r vnode = (y, r1)"
    by (cases "renderInternal nested later ?r vnode")
  have "good (at_depth m (d + 1)) False (renderInternal nested later ?r vnode)"
    by (rule good_renderInternal [OF n, where J = "\<lambda>r. True"])
       (simp_all add: sound_def good_def i1)
  then have "at_depth m (d + 1) r1" by (simp add: s)
  then show "good (at_depth m d) False (render_body nested later r vnode)"
    using i
    by (auto simp: render_body_def s at_depth_def split: sum.splits halt.splits out.splits)
qed

lemma render_fuel_unwinds: "sound (at_depth m d) False (render_fuel idle full hops n)"
proof (induction n arbitrary: m d)
  case 0
  then show ?case by (simp add: sound_def)
next
  case (Suc n)
  then show ?case by (cases hops) (simp_all add: render_body_unwinds)
qed

lemma render_body_guard:
  assumes "m < d"
  shows "sound (from_depth m d) True (render_body nested later)"
  using assms by (auto simp: sound_def from_depth_def render_body_def)

lemma render_body_fuelled:
  assumes n: "sound (from_depth m (d + 1)) True nested"
    and l: "sound (\<lambda>r. maxRenderDepth r = m) True later"
  shows "sound (from_depth m d) True (render_body nested later)"
  unfolding sound_def
proof (intro allI impI)
  fix r vnode
  assume i: "from_depth m d r"
  let ?r = "r\<lparr>renderDepth := renderDepth r + 1, asyncDetected := False\<rparr>"
  have i1: "from_depth m (d + 1) ?r" using i by (simp add: from_depth_def)
  obtain y r1 where s: "renderInternal nested later ?r vnode = (y, r1)"
    by (cases "renderInternal nested later ?r vnode")
  have "good (from_depth m (d + 1)) True (renderInternal nested later ?r vnode)"
    by (rule good_renderInternal [OF n l _ i1]) (simp add: from_depth_def)
  then have "from_depth m (d + 1) r1" "y \<noteq> Inl NestingFuel" by (simp_all add: s)
  then show "good (from_depth m d) True (render_body nested later r vnode)"
    using i
    by (auto simp: render_body_def s from_depth_def split: sum.splits halt.splits out.splits)
qed

lemma later_sound:
  assumes "sound (from_depth m idle) True f"
  shows "sound (\<lambda>r. maxRenderDepth r = m) True (\<lambda>r vnode. f (r\<lparr>renderDepth := idle\<rparr>) vnode)"
  unfolding sound_def
proof (intro allI impI)
  fix r :: renderer and vnode
  assume "maxRenderDepth r = m"
  then have "from_depth m idle (r\<lparr>renderDepth := idle\<rparr>)" by (simp add: from_depth_def)
  from soundD [OF assms this, of vnode]
  show "good (\<lambda>r. maxRenderDepth r = m) True (f (r\<lparr>renderDepth := idle\<rparr>) vnode)"
    by (simp add: good_def from_depth_def)
qed

lemma render_fuel_step:
  assumes l: "sound (\<lambda>r. maxRenderDepth r = m) True later"
    and f: "\<And>n. f (Suc n) = render_body (f n) later"
  shows "Suc (nat (m + 1 - d)) \<le> n \<Longrightarrow> sound (from_depth m d) True (f n)"
proof (induction n arbitrary: d)
  case 0
  then show ?case by simp
next
  case (Suc n)
  show ?case
  proof (cases "m < d")
    case True
    then show ?thesis unfolding f by (rule render_body_guard)
  next
    case False
    with Suc.prems have "Suc (nat (m + 1 - (d + 1))) \<le> n" by simp
    from Suc.IH [OF this] show ?thesis unfolding f by (rule render_body_fuelled [OF _ l])
  qed
qed

lemma render_fuel_fuelled:
  assumes full: "Suc (nat (m + 1 - idle)) \<le> full"
  shows "Suc (nat (m + 1 - d)) \<le> n \<Longrightarrow>
         sound (from_depth m d) True (render_fuel idle full hops n)"
proof (induction hops arbitrary: n d)
  case 0
  show ?case
    by (rule render_fuel_step [where later = "\<lambda>r vnode. (Inl HopFuel, r)", OF _ _ "0.prems"])
       (simp_all add: sound_def)
next
  case (Suc hops)
  have "sound (from_depth m idle) True (render_fuel idle full hops full)"
    using full by (rule Suc.IH)
  then have "sound (\<lambda>r. maxRenderDepth r = m) True
               (\<lambda>r vnode. render_fuel idle full hops full (r\<lparr>renderDepth := idle\<rparr>) vnode)"
    by (rule later_sound)
  then show ?case
    by (rule render_fuel_step [OF _ _ Suc.prems]) simp
qed

lemma render_guard:
  "maxRenderDepth r < renderDepth r \<Longrightarrow> render hops r vnode = (Inr (Text depth_marker), r)"
  by (cases hops) (simp_all add: render_def render_body_def)

definition promised_loop :: "(string \<times> (view \<Rightarrow> view outcome)) list" where
  \<comment> \<open>a component \<open>Loop\<close> that returns \<open>Promise.resolve({Loop: {}})\<close>\<close>
  "promised_loop =
     [(''Loop'', \<lambda>props. Returns (VPromise (Fulfilled (VObj [(''Loop'', VObj [])]))))]"

definition self_referential :: "(string \<times> (view \<Rightarrow> view outcome)) list" where
  \<comment> \<open>a component \<open>Loop\<close> that returns \<open>{Loop: {}}\<close>\<close>
  "self_referential = [(''Loop'', \<lambda>props. Returns (VObj [(''Loop'', VObj [])]))]"

text \<open>
  A call of \<open>render\<close> from outside, at any depth and on any view, never nests calls of
  \<open>render\<close> deeper than \<open>maxRenderDepth + 2 - renderDepth\<close> (the model, which has that much
  fuel, does not run out of it), and leaves \<open>renderDepth\<close> and \<open>maxRenderDepth\<close> as it found
  them, whether \<open>_renderInternal\<close> returned or threw. With \<open>renderDepth\<close> above
  \<open>maxRenderDepth\<close>, which is 100 in a new renderer, \<open>render\<close> returns the marker and changes
  nothing.
\<close>

lemma render_nesting_bounded:
  "fst (render hops r vnode) \<noteq> Inl NestingFuel \<and>
   renderDepth (snd (render hops r vnode)) = renderDepth r \<and>
   maxRenderDepth (snd (render hops r vnode)) = maxRenderDepth r \<and>
   maxRenderDepth (StringRenderer j) = 100 \<and> renderDepth (StringRenderer j) = 0 \<and>
   (maxRenderDepth r < renderDepth r \<longrightarrow> render hops r vnode = (Inr (Text depth_marker), r))"
proof -
  let ?n = "Suc (nat (maxRenderDepth r + 1 - renderDepth r))"
  have i: "from_depth (maxRenderDepth r) (renderDepth r) r" by (simp add: from_depth_def)
  have "sound (from_depth (maxRenderDepth r) (renderDepth r)) True
          (render_fuel (renderDepth r) ?n hops ?n)"
    by (rule render_fuel_fuelled) simp_all
  from soundD [OF this i, of vnode]
  have a: "fst (render hops r vnode) \<noteq> Inl NestingFuel"
    by (simp add: good_def render_def)
  have j: "at_depth (maxRenderDepth r) (renderDepth r) r" by (simp add: at_depth_def)
  from soundD [OF render_fuel_unwinds j, of "renderDepth r" ?n hops ?n vnode]
  have b: "renderDepth (snd (render hops r vnode)) = renderDepth r"
    "maxRenderDepth (snd (render hops r vnode)) = maxRenderDepth r"
    by (simp_all add: good_def render_def at_depth_def)
  show ?thesis
    using a b by (auto simp: render_guard StringRenderer_def)
qed

lemma promised_loop_step:
  assumes j: "juris r = Some promised_loop" and d: "renderDepth r \<le> maxRenderDepth r"
    and l: "fst (later (r\<lparr>renderDepth := renderDepth r + 1, asyncDetected := False\<rparr>)
                  (VObj [(''Loop'', VObj [])])) = Inl HopFuel"
  shows "fst (render_body nested later r (VObj [(''Loop'', VObj [])])) = Inl HopFuel"
proof -
  let ?r = "r\<lparr>renderDepth := renderDepth r + 1, asyncDetected := False\<rparr>"
  have j1: "juris ?r = Some promised_loop" using j by simp
  have v: "isValidTag ?r ''Loop''" by (simp add: isValidTag_def) code_simp
  have p: "fst (processComponentResult later later ?r (VObj [(''Loop'', VObj [])]) ''Loop'') =
             Inl HopFuel"
    using l v by (simp add: processComponentResult_def)
  have "renderInternal nested later ?r (VObj [(''Loop'', VObj [])]) = (Inl HopFuel, ?r)"
    using j1 p
    by (simp add: renderInternal_def has_component_def promised_loop_def renderComponent_def
        andThen_def caught_def)
  then show ?thesis using d by (simp add: render_body_def)
qed

lemma promised_loop_fuel:
  assumes "idle \<le> m"
  shows "juris r = Some promised_loop \<Longrightarrow> maxRenderDepth r = m \<Longrightarrow> renderDepth r \<le> m \<Longrightarrow>
         fst (render_fuel idle (Suc full) hops (Suc n) r (VObj [(''Loop'', VObj [])])) = Inl HopFuel"
proof (induction hops arbitrary: r n)
  case 0
  show ?case
    using "0.prems" by (simp add: promised_loop_step)
next
  case (Suc hops)
  let ?r = "r\<lparr>renderDepth := renderDepth r + 1, asyncDetected := False\<rparr>"
  have "fst (render_fuel idle (Suc full) hops (Suc full) (?r\<lparr>renderDepth := idle\<rparr>)
               (VObj [(''Loop'', VObj [])])) = Inl HopFuel"
    using Suc.prems assms by (intro Suc.IH) simp_all
  then show ?case
    using Suc.prems by (simp add: promised_loop_step)
qed

text \<open>
  C9. The component \<open>Loop\<close> that returns \<open>{Loop: {}}\<close> is stopped by the guard: \<open>render\<close> returns
  the marker. The component \<open>Loop\<close> that returns a promise fulfilled with \<open>{Loop: {}}\<close> is
  not: \<open>render\<close> has decremented \<open>renderDepth\<close> when the callback of the promise calls it again,
  so every callback starts at depth 0, and however many callbacks are allowed to run one
  after the other, the promise that \<open>render\<close> returned has not settled.
\<close>

theorem promised_loop_never_settles:
  "fst (render 0 (StringRenderer (Some self_referential)) (VObj [(''Loop'', VObj [])])) =
     Inr (Text depth_marker) \<and>
   (\<forall>hops. fst (render hops (StringRenderer (Some promised_loop)) (VObj [(''Loop'', VObj [])])) =
            Inl HopFuel)"
proof -
  have "fst (render 0 (StringRenderer (Some self_referential)) (VObj [(''Loop'', VObj [])])) =
     Inr (Text depth_marker)" by code_simp
  moreover have "fst (render hops (StringRenderer (Some promised_loop))
                        (VObj [(''Loop'', VObj [])])) = Inl HopFuel" for hops
    unfolding render_def
    by (rule promised_loop_fuel [where m = 100]) (simp_all add: StringRenderer_def)
  ultimately show ?thesis by simp
qed

section \<open>A component whose render method returns a promise\<close>

definition span_ok :: view where
  \<comment> \<open>\<open>{span: {text: "ok"}}\<close>\<close>
  "span_ok = VObj [(''span'', VObj [(''text'', VStr ''ok'')])]"

definition example_components :: "(string \<times> (view \<Rightarrow> view outcome)) list" where
  \<comment> \<open>\<open>Later\<close>: \<open>() => ({render: () => Promise.resolve({span: {text: "ok"}})})\<close>;
      \<open>Now\<close>: \<open>() => ({render: () => ({span: {text: "ok"}})})\<close>;
      \<open>Plain\<close>: \<open>() => ({span: {text: "ok"}})\<close>\<close>
  "example_components =
     [(''Later'', \<lambda>props. Returns (VObj [(''render'', VFun (Returns (VPromise (Fulfilled span_ok))))])),
      (''Now'', \<lambda>props. Returns (VObj [(''render'', VFun (Returns span_ok))])),
      (''Plain'', \<lambda>props. Returns span_ok)]"

lemma render_body_span:
  assumes "\<not> has_component r ''span''" "''text'' \<notin> set (specialAttributeHandlers r)"
    and "renderDepth r \<le> maxRenderDepth r"
  shows "\<exists>r'. render_body nested later r span_ok = (Inr (Text ''<span>ok</span>''), r') \<and>
              \<not> asyncDetected r'"
proof -
  let ?r = "r\<lparr>renderDepth := renderDepth r + 1, asyncDetected := False\<rparr>"
  have h: "\<not> has_component ?r ''span''" "''text'' \<notin> set (specialAttributeHandlers ?r)"
    using assms(1,2) by (simp_all add: has_component_def)
  have v: "\<not> isVoidElement ''span''" "entity CHR ''o'' = ''o''" "entity CHR ''k'' = ''k''"
    by code_simp+
  have "renderInternal nested later ?r span_ok =
          renderElement nested later ?r ''span'' (VObj [(''text'', VStr ''ok'')])"
    using h(1) by (simp add: renderInternal_def span_ok_def)
  also have "\<dots> = (Inr (Text ''<span>ok</span>''), ?r)"
    using renderElement_text [OF h(2), of "VStr ''ok''" "''ok''" nested later "''span''"]
    by (simp add: v)
  finally show ?thesis
    using assms(3) by (simp add: render_body_def)
qed

lemma render_fuel_span:
  assumes "\<not> has_component r ''span''" "''text'' \<notin> set (specialAttributeHandlers r)"
    and "renderDepth r \<le> maxRenderDepth r"
  shows "\<exists>r'. render_fuel idle full hops (Suc n) r span_ok = (Inr (Text ''<span>ok</span>''), r') \<and>
              \<not> asyncDetected r'"
  by (cases hops) (simp_all add: render_body_span [OF assms])

lemma enough_fuel: "(d::int) < m \<Longrightarrow> \<exists>n. nat (m + 1 - d) = Suc n"
  by (rule exI [of _ "nat (m - d)"]) linarith

lemma renderComponent_promised:
  assumes comps: "juris r = Some components" "map_of components a = Some fa"
    and fa: "fa props = Returns (VObj [(''render'', VFun (Returns (VPromise (Fulfilled span_ok))))])"
    and l: "fst (later r span_ok) = Inr (Text ''<span>ok</span>'')"
  shows "renderComponent nested later r a props =
           (Inr (Promise (Fulfilled ''<span>ok</span>'')), r)"
  using assms
  by (simp add: renderComponent_def processComponentResult_def caught_def andThen_def)

lemma processComponentResult_span:
  assumes "\<not> has_component r ''span''"
  shows "processComponentResult nested later r span_ok a = nested r span_ok"
proof -
  have "isValidTag r ''span''" by (simp add: isValidTag_def) code_simp
  then show ?thesis by (simp add: processComponentResult_def span_ok_def)
qed

lemma thenable_span: "thenable span_ok = NotThenable"
  by (simp add: span_ok_def)

lemma renderComponent_direct:
  assumes comps: "juris r = Some components" "map_of components a = Some fa"
    and fa: "fa props = Returns span_ok"
    and span: "\<not> has_component r ''span''"
    and n: "nested r span_ok = (Inr (Text ''<span>ok</span>''), r')"
  shows "renderComponent nested later r a props = (Inr (Text ''<span>ok</span>''), r')"
  using comps fa n
  by (simp add: renderComponent_def processComponentResult_span [OF span] caught_def
      thenable_span)

lemma renderComponent_method:
  assumes comps: "juris r = Some components" "map_of components a = Some fa"
    and fa: "fa props = Returns (VObj [(''render'', VFun (Returns span_ok))])"
    and n: "nested r span_ok = (Inr (Text ''<span>ok</span>''), r')"
  shows "renderComponent nested later r a props = (Inr (Text ''<span>ok</span>''), r')"
  using comps fa n
  by (simp add: renderComponent_def processComponentResult_def caught_def span_ok_def)

lemma renderInternal_component:
  assumes "a \<noteq> []" "has_component r a"
  shows "renderInternal nested later r (VObj [(a, VObj props)]) =
           renderComponent nested later r a (VObj props)"
  using assms by (simp add: renderInternal_def)

lemma render_later_unfold:
  assumes "nat (maxRenderDepth r + 1 - renderDepth r) = n"
  shows "render (Suc hops) r vnode =
           render_body (render_fuel (renderDepth r) (Suc n) (Suc hops) n)
             (\<lambda>r' v. render_fuel (renderDepth r) (Suc n) hops (Suc n)
                       (r'\<lparr>renderDepth := renderDepth r\<rparr>) v) r vnode"
  unfolding render_def assms by simp

lemma render_nested_unfold:
  assumes "nat (maxRenderDepth r + 1 - renderDepth r) = n"
  shows "\<exists>later. render hops r vnode =
           render_body (render_fuel (renderDepth r) (Suc n) hops n) later r vnode"
  unfolding render_def assms by (cases hops) auto

lemma render_body_result:
  assumes "renderDepth r \<le> maxRenderDepth r"
    and "renderInternal nested later (r\<lparr>renderDepth := renderDepth r + 1, asyncDetected := False\<rparr>)
           vnode = (Inr result, r')"
    and "\<not> asyncDetected r'"
  shows "fst (render_body nested later r vnode) = Inr result"
  using assms by (simp add: render_body_def split: out.splits)

lemma renderToString_result:
  assumes "fst (render hops r (VObj kvs)) = Inr result" "result \<noteq> Promise (Rejected m)"
    "\<forall>m. result \<noteq> Promise (Rejected m)"
  shows "fst (renderToString hops r (VObj kvs) False) = Inr result"
  using assms
  by (cases "render hops r (VObj kvs)")
     (auto simp: renderToString_def split: sum.splits out.splits promise.splits)

text \<open>
  With three registered components, one whose \<open>render()\<close> returns a promise already
  fulfilled with \<open>{span: {text: "ok"}}\<close>, one whose \<open>render()\<close> returns that view itself and
  one that returns that view directly, on a renderer where \<open>span\<close> is no component, \<open>text\<close> has
  no special handler and the depth is below the bound: \<open>renderToString\<close> returns for the first
  a promise fulfilled with \<open><span>ok</span>\<close>, and for the other two that same string.
\<close>

lemma promised_view_renders_like_sync:
  assumes comps: "juris r = Some components"
    and a: "a \<noteq> []" "map_of components a = Some fa"
      "fa (VObj pa) =
         Returns (VObj [(''render'', VFun (Returns (VPromise (Fulfilled span_ok))))])"
    and b: "b \<noteq> []" "map_of components b = Some fb"
      "fb (VObj pb) = Returns (VObj [(''render'', VFun (Returns span_ok))])"
    and c: "c \<noteq> []" "map_of components c = Some fc" "fc (VObj pc) = Returns span_ok"
    and span: "map_of components ''span'' = None"
    and plain: "''text'' \<notin> set (specialAttributeHandlers r)"
    and depth: "renderDepth r < maxRenderDepth r"
  shows "fst (renderToString (Suc hops) r (VObj [(a, VObj pa)]) False) =
           Inr (Promise (Fulfilled ''<span>ok</span>'')) \<and>
         fst (renderToString hops r (VObj [(b, VObj pb)]) False) =
           Inr (Text ''<span>ok</span>'') \<and>
         fst (renderToString hops r (VObj [(c, VObj pc)]) False) =
           Inr (Text ''<span>ok</span>'')"
proof -
  obtain n where n: "nat (maxRenderDepth r + 1 - renderDepth r) = Suc n"
    using enough_fuel [OF depth] by blast
  define r1 where "r1 = r\<lparr>renderDepth := renderDepth r + 1, asyncDetected := False\<rparr>"
  have r1: "juris r1 = Some components" "\<not> has_component r1 ''span''"
    "''text'' \<notin> set (specialAttributeHandlers r1)" "renderDepth r1 \<le> maxRenderDepth r1"
    "has_component r1 a" "has_component r1 b" "has_component r1 c"
    using comps a(2) b(2) c(2) span plain depth by (simp_all add: r1_def has_component_def)
  have r0: "\<not> has_component (r1\<lparr>renderDepth := renderDepth r\<rparr>) ''span''"
    "''text'' \<notin> set (specialAttributeHandlers (r1\<lparr>renderDepth := renderDepth r\<rparr>))"
    "renderDepth (r1\<lparr>renderDepth := renderDepth r\<rparr>) \<le>
       maxRenderDepth (r1\<lparr>renderDepth := renderDepth r\<rparr>)"
    using comps span plain depth by (simp_all add: r1_def has_component_def)
  have le: "renderDepth r \<le> maxRenderDepth r" using depth by simp
  let ?later = "\<lambda>r' v. render_fuel (renderDepth r) (Suc (Suc n)) hops (Suc (Suc n))
                       (r'\<lparr>renderDepth := renderDepth r\<rparr>) v"
  have "fst (?later r1 span_ok) = Inr (Text ''<span>ok</span>'')"
    using render_fuel_span [OF r0, of "renderDepth r" "Suc (Suc n)" hops "Suc n"] by auto
  then have "renderInternal (render_fuel (renderDepth r) (Suc (Suc n)) (Suc hops) (Suc n)) ?later r1
               (VObj [(a, VObj pa)]) = (Inr (Promise (Fulfilled ''<span>ok</span>'')), r1)"
    unfolding renderInternal_component [OF a(1) r1(5)]
    by (rule renderComponent_promised [OF r1(1) a(2,3)])
  then have "fst (render_body (render_fuel (renderDepth r) (Suc (Suc n)) (Suc hops) (Suc n)) ?later r
               (VObj [(a, VObj pa)])) = Inr (Promise (Fulfilled ''<span>ok</span>''))"
    unfolding r1_def by (rule render_body_result [OF le]) simp
  then have "fst (render (Suc hops) r (VObj [(a, VObj pa)])) =
          Inr (Promise (Fulfilled ''<span>ok</span>''))"
    unfolding render_later_unfold [OF n] .
  then have 1: "fst (renderToString (Suc hops) r (VObj [(a, VObj pa)]) False) =
           Inr (Promise (Fulfilled ''<span>ok</span>''))"
    by (rule renderToString_result) simp_all
  obtain later where
    u: "\<And>vnode. render hops r vnode =
          render_body (render_fuel (renderDepth r) (Suc (Suc n)) hops (Suc n)) later r vnode"
    using render_nested_unfold [OF n, of hops] by (cases hops) (auto simp: render_def n)
  obtain r' where s: "render_fuel (renderDepth r) (Suc (Suc n)) hops (Suc n) r1 span_ok =
                     (Inr (Text ''<span>ok</span>''), r')" and q: "\<not> asyncDetected r'"
    using render_fuel_span [OF r1(2,3,4)] by blast
  have "renderInternal (render_fuel (renderDepth r) (Suc (Suc n)) hops (Suc n)) later r1
          (VObj [(b, VObj pb)]) = (Inr (Text ''<span>ok</span>''), r')"
    unfolding renderInternal_component [OF b(1) r1(6)]
    by (rule renderComponent_method [OF r1(1) b(2,3)]) (rule s)
  then have "fst (render hops r (VObj [(b, VObj pb)])) = Inr (Text ''<span>ok</span>'')"
    unfolding r1_def u by (rule render_body_result [OF le _ q])
  then have 2: "fst (renderToString hops r (VObj [(b, VObj pb)]) False) =
           Inr (Text ''<span>ok</span>'')"
    by (rule renderToString_result) simp_all
  have "renderInternal (render_fuel (renderDepth r) (Suc (Suc n)) hops (Suc n)) later r1
          (VObj [(c, VObj pc)]) = (Inr (Text ''<span>ok</span>''), r')"
    unfolding renderInternal_component [OF c(1) r1(7)]
    by (rule renderComponent_direct [OF r1(1) c(2,3) r1(2)]) (rule s)
  then have "fst (render hops r (VObj [(c, VObj pc)])) = Inr (Text ''<span>ok</span>'')"
    unfolding r1_def u by (rule render_body_result [OF le _ q])
  then have 3: "fst (renderToString hops r (VObj [(c, VObj pc)]) False) =
           Inr (Text ''<span>ok</span>'')"
    by (rule renderToString_result) simp_all
  show ?thesis using 1 2 3 by simp
qed

lemma promised_view_renders_like_sync_witness:
  "juris (StringRenderer (Some example_components)) = Some example_components \<and>
   map_of example_components ''span'' = None \<and>
   ''text'' \<notin> set (specialAttributeHandlers (StringRenderer (Some example_components))) \<and>
   renderDepth (StringRenderer (Some example_components)) <
     maxRenderDepth (StringRenderer (Some example_components)) \<and>
   fst (renderToString 1 (StringRenderer (Some example_components))
          (VObj [(''Later'', VObj [])]) False) =
     Inr (Promise (Fulfilled ''<span>ok</span>'')) \<and>
   fst (renderToString 0 (StringRenderer (Some example_components))
          (VObj [(''Now'', VObj [])]) False) =
     Inr (Text ''<span>ok</span>'') \<and>
   fst (renderToString 0 (StringRenderer (Some example_components))
          (VObj [(''Plain'', VObj [])]) False) =
     Inr (Text ''<span>ok</span>'')"
proof -
  let ?r = "StringRenderer (Some example_components)"
  have h: "juris ?r = Some example_components" "map_of example_components ''span'' = None"
    "''text'' \<notin> set (specialAttributeHandlers ?r)" "renderDepth ?r < maxRenderDepth ?r"
    by (simp_all add: StringRenderer_def example_components_def)
  have a: "''Later'' \<noteq> []"
    "map_of example_components ''Later'' =
       Some (\<lambda>props. Returns (VObj [(''render'', VFun (Returns (VPromise (Fulfilled span_ok))))]))"
    "(\<lambda>props. Returns (VObj [(''render'', VFun (Returns (VPromise (Fulfilled span_ok))))]))
       (VObj []) =
     Returns (VObj [(''render'', VFun (Returns (VPromise (Fulfilled span_ok))))])"
    by (simp_all add: example_components_def)
  have b: "''Now'' \<noteq> []"
    "map_of example_components ''Now'' =
       Some (\<lambda>props. Returns (VObj [(''render'', VFun (Returns span_ok))]))"
    "(\<lambda>props. Returns (VObj [(''render'', VFun (Returns span_ok))])) (VObj []) =
     Returns (VObj [(''render'', VFun (Returns span_ok))])"
    by (simp_all add: example_components_def)
  have c: "''Plain'' \<noteq> []"
    "map_of example_components ''Plain'' = Some (\<lambda>props. Returns span_ok)"
    "(\<lambda>props. Returns span_ok) (VObj []) = Returns span_ok"
    by (simp_all add: example_components_def)
  from promised_view_renders_like_sync [OF h(1) a b c h(2,3,4), of 0]
  show ?thesis using h by simp
qed

definition title_and_id :: "view \<Rightarrow> view" where
  \<comment> \<open>\<open>{div: {title: f, id: "x"}}\<close>\<close>
  "title_and_id f = VObj [(''div'', VObj [(''title'', f), (''id'', VStr ''x'')])]"

fun nested_divs :: "nat \<Rightarrow> view" where
  \<comment> \<open>\<open>{span: {text: "ok"}}\<close> inside \<open>n\<close> elements \<open>{div: {children: ...}}\<close>\<close>
  "nested_divs 0 = span_ok"
| "nested_divs (Suc n) = VObj [(''div'', VObj [(''children'', nested_divs n)])]"

definition deep_components :: "(string \<times> (view \<Rightarrow> view outcome)) list" where
  \<comment> \<open>\<open>Later\<close>: \<open>() => ({render: () => Promise.resolve(view)})\<close> and
      \<open>Now\<close>: \<open>() => ({render: () => view})\<close>, for the view nested 3 deep\<close>
  "deep_components =
     [(''Later'',
       \<lambda>props. Returns (VObj [(''render'', VFun (Returns (VPromise (Fulfilled (nested_divs 3)))))])),
      (''Now'', \<lambda>props. Returns (VObj [(''render'', VFun (Returns (nested_divs 3)))]))]"

text \<open>
  C2. An attribute given as a function that returns a promise is written after the
  attributes that are there at once: \<open>{div: {title: () => Promise.resolve("t"), id: "x"}}\<close>
  renders with \<open>id\<close> before \<open>title\<close>, and the same view with \<open>title: () => "t"\<close> with \<open>title\<close>
  before \<open>id\<close>. A view that a \<open>render()\<close> method returns is rendered one level deeper than the
  same view coming from the promise that a \<open>render()\<close> method returns: with a bound of 3,
  three nested \<open>div\<close>s around a \<open>span\<close> come out whole from the promise, and with the marker in
  place of the \<open>span\<close> otherwise.
\<close>

theorem promised_output_differs:
  "fst (renderToString 0 (StringRenderer None)
          (title_and_id (VFun (Returns (VPromise (Fulfilled (VStr ''t'')))))) False) =
     Inr (Promise (Fulfilled
       (''<div id='' @ [dq] @ ''x'' @ [dq] @ '' title='' @ [dq] @ ''t'' @ [dq] @ ''></div>''))) \<and>
   fst (renderToString 0 (StringRenderer None) (title_and_id (VFun (Returns (VStr ''t'')))) False) =
     Inr (Text (''<div title='' @ [dq] @ ''t'' @ [dq] @ '' id='' @ [dq] @ ''x'' @ [dq] @ ''></div>'')) \<and>
   fst (renderToString 1 ((StringRenderer (Some deep_components))\<lparr>maxRenderDepth := 3\<rparr>)
          (VObj [(''Later'', VObj [])]) False) =
     Inr (Promise (Fulfilled ''<div><div><div><span>ok</span></div></div></div>'')) \<and>
   fst (renderToString 1 ((StringRenderer (Some deep_components))\<lparr>maxRenderDepth := 3\<rparr>)
          (VObj [(''Now'', VObj [])]) False) =
     Inr (Text (''<div><div><div>'' @ depth_marker @ ''</div></div></div>''))"
  by code_simp

end
